theory Spec2Isabelle
  imports Main
begin

section \<open>Data model (internal/models, as used by internal/websocket/hub.go)\<close>

text \<open>
  Times are nanoseconds since an arbitrary epoch. A user is identified by its ID.
  \<open>json.RawMessage\<close> is a byte string that \<open>json.Marshal\<close> accepts only when it is
  valid JSON, so the model keeps that classification with the bytes.
\<close>

datatype rawmessage = ValidJSON string | InvalidJSON string

record match =
  ID :: string
  Status :: string
  HomeScore :: int
  AwayScore :: int
  MatchData :: rawmessage

record wsmessage =
  Type :: string
  ChatRoom :: string
  Content :: string
  User :: "string option"
  Match :: "match option"
  Timestamp :: nat

definition MessageTypeChat :: string where "MessageTypeChat = ''chat''"
definition MessageTypeJoin :: string where "MessageTypeJoin = ''join''"
definition MessageTypeLeave :: string where "MessageTypeLeave = ''leave''"
definition MessageTypeEvent :: string where "MessageTypeEvent = ''event''"
definition MessageTypeError :: string where "MessageTypeError = ''error''"

text \<open>
  \<open>json.Marshal\<close> of a \<open>WSMessage\<close>: the payload is the message itself; encoding fails
  when the embedded match carries raw bytes that are not JSON.
\<close>

definition marshal :: "wsmessage \<Rightarrow> wsmessage option" where
  "marshal m =
     (case Match m of
        None \<Rightarrow> Some m
      | Some mt \<Rightarrow> (case MatchData mt of ValidJSON _ \<Rightarrow> Some m | InvalidJSON _ \<Rightarrow> None))"

section \<open>Token bucket (golang.org/x/time/rate, a third-party library)\<close>

text \<open>
  \<open>rate.NewLimiter(rate.Every(d), b)\<close>: one token every \<open>d\<close> nanoseconds, at most \<open>b\<close>
  tokens, the bucket full at creation. Tokens are counted in nanoseconds of credit
  (\<open>interval\<close> of them make one token). The model computes in whole numbers what the
  library computes in \<open>float64\<close>, with the wait for a missing token cut down to whole
  nanoseconds: within a nanosecond of the instant at which a token becomes due the
  library's answer can be the other one. Nothing below asks a limiter that close to such
  an instant.
  \<open>Allow\<close> never blocks: it takes one token if there is one. A time before \<open>last\<close>
  adds nothing (the subtraction on \<open>nat\<close> stops at 0, as the library's \<open>advance\<close>
  does), and a refusal leaves the limiter as it was.
\<close>

record limiter =
  interval :: nat
  burst :: nat
  tokens :: nat
  last :: nat

definition NewLimiter :: "nat \<Rightarrow> nat \<Rightarrow> limiter" where
  "NewLimiter d b = \<lparr>interval = d, burst = b, tokens = b * d, last = 0\<rparr>"

definition Allow :: "limiter \<Rightarrow> nat \<Rightarrow> bool \<times> limiter" where
  "Allow lim now =
     (let elapsed = now - last lim;
          tk = min (burst lim * interval lim) (tokens lim + elapsed)
      in if interval lim \<le> tk
         then (True, lim\<lparr>tokens := tk - interval lim, last := now\<rparr>)
         else (False, lim))"

definition second :: nat where "second = 1000000000"

section \<open>Channels, clients and the hub\<close>

text \<open>
  A buffered Go channel. A send on a closed channel panics, also inside \<open>select\<close>;
  a \<open>select\<close> with \<open>default\<close> takes the default branch when the buffer is full;
  a plain send on a full channel waits for the receiver.
\<close>

record chan =
  buf :: "wsmessage list"
  cap :: nat
  closed :: bool

text \<open>
  A \<open>*Client\<close>: \<open>ptr\<close> is the pointer's identity, \<open>user\<close> and \<open>crooms\<close> are the fields
  \<open>user\<close> and \<open>rooms\<close>, which nothing in hub.go ever changes. \<open>rooms\<close> is a
  \<open>map[string]bool\<close>, kept as an association list whose order is the order in which
  \<open>range\<close> visits the keys. The client's channel and limiter are mutable and live in the
  hub state below.
\<close>

record client =
  ptr :: nat
  user :: string
  crooms :: "(string \<times> bool) list"

datatype rwmutex = Unlocked | Writing

text \<open>
  What a call does: it returns, it waits at a lock or a channel (with the state at that
  point), or it panics (a panic in the fan-out loop is given with the state before the
  loop).
\<close>

datatype 'a outcome = Returns 'a | Blocked 'a | Panicked 'a

text \<open>
  The \<open>Hub\<close>, with what it reaches through its clients' pointers (\<open>send\<close>, the
  channel of each client, and \<open>climiter\<close>, its limiter), the goroutines it has started
  (\<open>initialData\<close> for \<open>go h.sendInitialData(client)\<close>, \<open>persisted\<close> for
  \<open>go h.persistMessage(message)\<close>, \<open>pendingUnregister\<close> for the sends waiting on
  \<open>h.unregister\<close>) and the two metrics. \<open>mu\<close> is \<open>h.mu\<close>, which only the hub's
  goroutine takes: \<open>Writing\<close> while the write lock is held. \<open>matchMu\<close> is
  \<open>h.matchMu\<close>, which the poller takes for writing and the initial-data tasks for
  reading.

  The loop of \<open>Run\<close> receives on \<open>h.register\<close>, \<open>h.unregister\<close> and \<open>h.broadcast\<close>
  between two calls of its handlers only, and these channels have no buffer. A handler
  that returns has released \<open>h.mu\<close>, and a handler that waits for ever does so with the
  write lock held (at the \<open>RLock\<close> of \<open>broadcastToRoom\<close>). So, seen from another
  goroutine, \<open>mu = Writing\<close> says that the loop receives nothing any more, and a send on
  one of its channels then waits for ever.
\<close>

record hub =
  clients :: "client set"
  rooms :: "string \<rightharpoonup> client set"
  matches :: "string \<rightharpoonup> match"
  roomLimiters :: "string \<rightharpoonup> limiter"
  mu :: rwmutex
  matchMu :: rwmutex
  send :: "client \<Rightarrow> chan"
  climiter :: "client \<Rightarrow> limiter"
  pendingUnregister :: "client \<Rightarrow> nat"
  initialData :: "client list"
  persisted :: "wsmessage list"
  ConnectedClients :: int
  MessagesSent :: nat

definition NewHub :: "(client \<Rightarrow> chan) \<Rightarrow> (client \<Rightarrow> limiter) \<Rightarrow> hub" where
  "NewHub chans lims =
     \<lparr>clients = {}, rooms = Map.empty, matches = Map.empty, roomLimiters = Map.empty,
      mu = Unlocked, matchMu = Unlocked, send = chans, climiter = lims, pendingUnregister = (\<lambda>_. 0),
      initialData = [], persisted = [], ConnectedClients = 0, MessagesSent = 0\<rparr>"

definition members :: "hub \<Rightarrow> string \<Rightarrow> client set" where
  "members h room = (case rooms h room of None \<Rightarrow> {} | Some cs \<Rightarrow> cs)"

definition has_room :: "chan \<Rightarrow> bool" where
  "has_room ch = (length (buf ch) < cap ch)"

definition push :: "chan \<Rightarrow> wsmessage \<Rightarrow> chan" where
  "push ch p = ch\<lparr>buf := buf ch @ [p]\<rparr>"

text \<open>
  \<open>broadcastToRoom\<close>: \<open>h.mu.RLock()\<close> waits while the write lock is held, and the lock
  is not reentrant. The loop visits every member once; what it does to one member does
  not depend on the others, so the result is given member by member. A member whose
  buffer is full gets one more goroutine waiting to send it on \<open>h.unregister\<close>
  (the source's \<open>go h.unregister <- client\<close>, counted in \<open>pendingUnregister\<close>); the
  hub's loop receives it later.
\<close>

definition broadcastToRoom :: "hub \<Rightarrow> string \<Rightarrow> wsmessage \<Rightarrow> hub outcome" where
  "broadcastToRoom h room message =
     (case marshal message of
        None \<Rightarrow> Returns h
      | Some payload \<Rightarrow>
          if mu h = Writing then Blocked h
          else let cs = members h room in
            if \<exists>c\<in>cs. closed (send h c) then Panicked h
            else Returns (h\<lparr>
              send := (\<lambda>c. if c \<in> cs \<and> has_room (send h c)
                            then push (send h c) payload else send h c),
              pendingUnregister := (\<lambda>c. if c \<in> cs \<and> \<not> has_room (send h c)
                                 then Suc (pendingUnregister h c) else pendingUnregister h c)\<rparr>))"

definition joinMsg :: "string \<Rightarrow> client \<Rightarrow> nat \<Rightarrow> wsmessage" where
  "joinMsg room c now =
     \<lparr>Type = MessageTypeJoin, ChatRoom = room, Content = [], User = Some (user c),
      Match = None, Timestamp = now\<rparr>"

definition leaveMsg :: "string \<Rightarrow> client \<Rightarrow> nat \<Rightarrow> wsmessage" where
  "leaveMsg room c now =
     \<lparr>Type = MessageTypeLeave, ChatRoom = room, Content = [], User = Some (user c),
      Match = None, Timestamp = now\<rparr>"

text \<open>The loop of \<open>handleRegister\<close> over \<open>client.rooms\<close>.\<close>

fun registerRooms :: "hub \<Rightarrow> client \<Rightarrow> nat \<Rightarrow> string list \<Rightarrow> hub outcome" where
  "registerRooms h c now [] = Returns h"
| "registerRooms h c now (room # rs) =
     (let h1 = h\<lparr>rooms := (rooms h)(room \<mapsto> insert c (members h room))\<rparr>
      in case broadcastToRoom h1 room (joinMsg room c now) of
           Returns h2 \<Rightarrow> registerRooms h2 c now rs
         | Blocked h2 \<Rightarrow> Blocked h2
         | Panicked h2 \<Rightarrow> Panicked h2)"

definition handleRegister :: "hub \<Rightarrow> client \<Rightarrow> nat \<Rightarrow> hub outcome" where
  "handleRegister h c now =
     (if mu h \<noteq> Unlocked then Blocked h
      else
        let h1 = h\<lparr>mu := Writing, clients := insert c (clients h),
                   initialData := initialData h @ [c]\<rparr>
        in case registerRooms h1 c now (map fst (crooms c)) of
             Returns h2 \<Rightarrow>
               Returns (h2\<lparr>ConnectedClients := ConnectedClients h2 + 1, mu := Unlocked\<rparr>)
           | Blocked h2 \<Rightarrow> Blocked h2
           | Panicked h2 \<Rightarrow> Panicked h2)"

text \<open>The loop of \<open>handleUnregister\<close> over \<open>client.rooms\<close>.\<close>

fun unregisterRooms :: "hub \<Rightarrow> client \<Rightarrow> nat \<Rightarrow> string list \<Rightarrow> hub outcome" where
  "unregisterRooms h c now [] = Returns h"
| "unregisterRooms h c now (room # rs) =
     (case rooms h room of
        None \<Rightarrow> unregisterRooms h c now rs
      | Some cs \<Rightarrow>
          let cs1 = cs - {c};
              h1 = h\<lparr>rooms := (if cs1 = {} then (rooms h)(room := None)
                                else (rooms h)(room \<mapsto> cs1))\<rparr>
          in case broadcastToRoom h1 room (leaveMsg room c now) of
               Returns h2 \<Rightarrow> unregisterRooms h2 c now rs
             | Blocked h2 \<Rightarrow> Blocked h2
             | Panicked h2 \<Rightarrow> Panicked h2)"

definition handleUnregister :: "hub \<Rightarrow> client \<Rightarrow> nat \<Rightarrow> hub outcome" where
  "handleUnregister h c now =
     (if mu h \<noteq> Unlocked then Blocked h
      else if c \<in> clients h then
        let h1 = h\<lparr>mu := Writing, clients := clients h - {c},
                   send := (send h)(c := (send h c)\<lparr>closed := True\<rparr>)\<rparr>
        in case unregisterRooms h1 c now (map fst (crooms c)) of
             Returns h2 \<Rightarrow>
               Returns (h2\<lparr>ConnectedClients := ConnectedClients h2 - 1, mu := Unlocked\<rparr>)
           | Blocked h2 \<Rightarrow> Blocked h2
           | Panicked h2 \<Rightarrow> Panicked h2
      else Returns h)"

text \<open>
  \<open>checkRateLimit\<close> takes and releases the write lock around the lookup, then asks the
  room's limiter; the limiter is a pointer, so the token it takes is taken in the map.
\<close>

definition checkRateLimit :: "hub \<Rightarrow> string \<Rightarrow> nat \<Rightarrow> (bool \<times> hub) outcome" where
  "checkRateLimit h room now =
     (if mu h \<noteq> Unlocked then Blocked (False, h)
      else
        let lim = (case roomLimiters h room of
                     None \<Rightarrow> NewLimiter second 10
                   | Some l \<Rightarrow> l);
            r = Allow lim now
        in Returns (fst r, h\<lparr>roomLimiters := (roomLimiters h)(room \<mapsto> snd r)\<rparr>))"

definition handleBroadcast :: "hub \<Rightarrow> wsmessage \<Rightarrow> nat \<Rightarrow> hub outcome" where
  "handleBroadcast h message now =
     (case checkRateLimit h (ChatRoom message) now of
        Blocked (ok, h1) \<Rightarrow> Blocked h1
      | Panicked (ok, h1) \<Rightarrow> Panicked h1
      | Returns (ok, h1) \<Rightarrow>
          if \<not> ok then Returns h1
          else
            let h2 = (if Type message = MessageTypeChat
                      then h1\<lparr>persisted := persisted h1 @ [message]\<rparr> else h1)
            in case broadcastToRoom h2 (ChatRoom message) message of
                 Returns h3 \<Rightarrow> Returns (h3\<lparr>MessagesSent := Suc (MessagesSent h3)\<rparr>)
               | Blocked h3 \<Rightarrow> Blocked h3
               | Panicked h3 \<Rightarrow> Panicked h3)"

section \<open>The poller\<close>

definition matchNeedsUpdate :: "match \<Rightarrow> match \<Rightarrow> bool" where
  "matchNeedsUpdate old new =
     (if HomeScore old \<noteq> HomeScore new \<or> AwayScore old \<noteq> AwayScore new then True
      else if Status old \<noteq> Status new then True
      else False)"

definition updateMsg :: "match \<Rightarrow> nat \<Rightarrow> wsmessage" where
  "updateMsg m now =
     \<lparr>Type = MessageTypeEvent, ChatRoom = ID m, Content = [], User = None,
      Match = Some m, Timestamp = now\<rparr>"

text \<open>
  A \<open>*models.Match\<close> is modelled by the value it points to: the store is taken to
  return new objects on every call and to leave the ones it returned as they are.

  The loop of \<open>fetchMatchUpdates\<close>, with the messages it has sent on \<open>h.broadcast\<close>
  in the order it sent them. The send is a plain send on a channel without buffer: it
  completes when the loop of \<open>Run\<close> receives, and waits for ever, after the cache has
  taken the match, when that loop receives nothing any more.
\<close>

fun sent :: "wsmessage \<Rightarrow> (hub \<times> wsmessage list) outcome \<Rightarrow> (hub \<times> wsmessage list) outcome" where
  "sent msg (Returns (h, out)) = Returns (h, msg # out)"
| "sent msg (Blocked (h, out)) = Blocked (h, msg # out)"
| "sent msg (Panicked (h, out)) = Panicked (h, msg # out)"

fun pollMatches :: "hub \<Rightarrow> match list \<Rightarrow> nat \<Rightarrow> (hub \<times> wsmessage list) outcome" where
  "pollMatches h [] now = Returns (h, [])"
| "pollMatches h (m # ms) now =
     (if (case matches h (ID m) of None \<Rightarrow> True | Some old \<Rightarrow> matchNeedsUpdate old m)
      then let h1 = h\<lparr>matches := (matches h)(ID m \<mapsto> m)\<rparr>
           in if mu h1 = Writing then Blocked (h1, [])
              else sent (updateMsg m now) (pollMatches h1 ms now)
      else pollMatches h ms now)"

text \<open>
  \<open>GetLiveMatches\<close> gives the matches, or \<open>None\<close> for an error. The loop runs with
  the write lock of \<open>h.matchMu\<close>, which a call that waits in a send keeps.
\<close>

definition fetchMatchUpdates ::
  "hub \<Rightarrow> match list option \<Rightarrow> nat \<Rightarrow> (hub \<times> wsmessage list) outcome" where
  "fetchMatchUpdates h fetched now =
     (case fetched of
        None \<Rightarrow> Returns (h, [])
      | Some ms \<Rightarrow>
          if matchMu h = Writing then Blocked (h, [])
          else (case pollMatches h ms now of
                  Returns r \<Rightarrow> Returns r
                | Blocked r \<Rightarrow> Blocked (fst r\<lparr>matchMu := Writing\<rparr>, snd r)
                | Panicked r \<Rightarrow> Panicked r))"

section \<open>The read pump\<close>

definition canAccessRoom :: "client \<Rightarrow> string \<Rightarrow> bool" where
  "canAccessRoom c room = (case map_of (crooms c) room of None \<Rightarrow> False | Some b \<Rightarrow> b)"

definition errorMsg :: "string \<Rightarrow> wsmessage" where
  "errorMsg text =
     \<lparr>Type = MessageTypeError, ChatRoom = [], Content = text, User = None,
      Match = None, Timestamp = 0\<rparr>"

text \<open>The plain send \<open>c.send <- payload\<close>.\<close>

definition sendBlocking :: "hub \<Rightarrow> client \<Rightarrow> wsmessage \<Rightarrow> hub outcome" where
  "sendBlocking h c payload =
     (if closed (send h c) then Panicked h
      else if has_room (send h c) then Returns (h\<lparr>send := (send h)(c := push (send h c) payload)\<rparr>)
      else Blocked h)"

definition replyError :: "hub \<Rightarrow> client \<Rightarrow> string \<Rightarrow> hub outcome" where
  "replyError h c text =
     (case marshal (errorMsg text) of
        None \<Rightarrow> Returns h
      | Some payload \<Rightarrow> sendBlocking h c payload)"

datatype frame = ReadError | Malformed | Decoded wsmessage

record pumped =
  state :: hub
  submitted :: "wsmessage option"
  reading :: bool

definition lift_reply :: "hub outcome \<Rightarrow> pumped outcome" where
  "lift_reply r =
     (case r of
        Returns h \<Rightarrow> Returns \<lparr>state = h, submitted = None, reading = True\<rparr>
      | Blocked h \<Rightarrow> Blocked \<lparr>state = h, submitted = None, reading = True\<rparr>
      | Panicked h \<Rightarrow> Panicked \<lparr>state = h, submitted = None, reading = False\<rparr>)"

text \<open>
  One turn of the loop of \<open>readPump\<close>: \<open>submitted\<close> is what it has sent on
  \<open>h.broadcast\<close> (a plain send, which waits for ever when the loop of \<open>Run\<close> receives
  nothing any more), \<open>reading\<close> whether the loop goes on. A read error leaves the loop,
  and the deferred function sends the client on \<open>h.unregister\<close>.
\<close>

definition readPump :: "hub \<Rightarrow> client \<Rightarrow> frame \<Rightarrow> nat \<Rightarrow> pumped outcome" where
  "readPump h c fr now =
     (case fr of
        ReadError \<Rightarrow>
          Returns \<lparr>state = h\<lparr>pendingUnregister :=
                              (pendingUnregister h)(c := Suc (pendingUnregister h c))\<rparr>,
                   submitted = None, reading = False\<rparr>
      | Malformed \<Rightarrow> Returns \<lparr>state = h, submitted = None, reading = True\<rparr>
      | Decoded wsMessage \<Rightarrow>
          let r = Allow (climiter h c) now;
              h1 = h\<lparr>climiter := (climiter h)(c := snd r)\<rparr>
          in if \<not> fst r then lift_reply (replyError h1 c ''Rate limit exceeded'')
             else
               let m = wsMessage\<lparr>User := Some (user c), Timestamp := now\<rparr>
               in if \<not> canAccessRoom c (ChatRoom m)
                  then lift_reply (replyError h1 c ''Room access denied'')
                  else if mu h1 = Writing
                  then Blocked \<lparr>state = h1, submitted = None, reading = True\<rparr>
                  else Returns \<lparr>state = h1, submitted = Some m, reading = True\<rparr>)"

section \<open>Initial data\<close>

text \<open>
  A stored message as \<open>GetRecentMessages\<close> returns it: content, user, creation time.
  The inner loop of \<open>sendInitialData\<close> stops the whole function at the first full buffer
  (\<open>False\<close> in the result).
\<close>

type_synonym stored = "string \<times> string option \<times> nat"

definition historyMsg :: "string \<Rightarrow> stored \<Rightarrow> wsmessage" where
  "historyMsg room msg =
     \<lparr>Type = MessageTypeChat, ChatRoom = room, Content = fst msg, User = fst (snd msg),
      Match = None, Timestamp = snd (snd msg)\<rparr>"

fun sendHistory :: "hub \<Rightarrow> client \<Rightarrow> string \<Rightarrow> stored list \<Rightarrow> (bool \<times> hub) outcome" where
  "sendHistory h c room [] = Returns (True, h)"
| "sendHistory h c room (msg # msgs) =
     (case marshal (historyMsg room msg) of
        None \<Rightarrow> sendHistory h c room msgs
      | Some payload \<Rightarrow>
          if closed (send h c) then Panicked (False, h)
          else if has_room (send h c)
          then sendHistory (h\<lparr>send := (send h)(c := push (send h c) payload)\<rparr>) c room msgs
          else Returns (False, h))"

definition sendMatch :: "hub \<Rightarrow> client \<Rightarrow> string \<Rightarrow> nat \<Rightarrow> hub outcome" where
  "sendMatch h c room now =
     (if matchMu h = Writing then Blocked h
      else case matches h room of
        None \<Rightarrow> Returns h
      | Some m \<Rightarrow>
          (case marshal \<lparr>Type = MessageTypeEvent, ChatRoom = room, Content = [], User = None,
                         Match = Some m, Timestamp = now\<rparr> of
             None \<Rightarrow> Returns h
           | Some payload \<Rightarrow> sendBlocking h c payload))"

fun initialRooms ::
  "hub \<Rightarrow> client \<Rightarrow> (string \<Rightarrow> stored list option) \<Rightarrow> nat \<Rightarrow> string list \<Rightarrow> hub outcome" where
  "initialRooms h c store now [] = Returns h"
| "initialRooms h c store now (room # rs) =
     (case store room of
        None \<Rightarrow> initialRooms h c store now rs
      | Some msgs \<Rightarrow>
          (case sendHistory h c room msgs of
             Panicked (b, h1) \<Rightarrow> Panicked h1
           | Blocked (b, h1) \<Rightarrow> Blocked h1
           | Returns (b, h1) \<Rightarrow>
               if \<not> b then Returns h1
               else (case sendMatch h1 c room now of
                       Returns h2 \<Rightarrow> initialRooms h2 c store now rs
                     | Blocked h2 \<Rightarrow> Blocked h2
                     | Panicked h2 \<Rightarrow> Panicked h2)))"

definition sendInitialData ::
  "hub \<Rightarrow> client \<Rightarrow> (string \<Rightarrow> stored list option) \<Rightarrow> nat \<Rightarrow> hub outcome" where
  "sendInitialData h c store now = initialRooms h c store now (map fst (crooms c))"

section \<open>The state a call leaves\<close>

fun state_of :: "'a outcome \<Rightarrow> 'a" where
  "state_of (Returns x) = x"
| "state_of (Blocked x) = x"
| "state_of (Panicked x) = x"

fun panics :: "'a outcome \<Rightarrow> bool" where
  "panics (Panicked _) = True"
| "panics _ = False"

section \<open>The loop of Run\<close>

datatype event = Register client | Unregister client | Broadcast wsmessage

text \<open>One turn of the \<open>select\<close> loop of \<open>Run\<close>, on the event it receives.\<close>

definition Run :: "hub \<Rightarrow> event \<Rightarrow> nat \<Rightarrow> hub outcome" where
  "Run h ev now =
     (case ev of
        Register c \<Rightarrow> handleRegister h c now
      | Unregister c \<Rightarrow> handleUnregister h c now
      | Broadcast message \<Rightarrow> handleBroadcast h message now)"

section \<open>The goroutines together\<close>

text \<open>
  The hub with the other goroutines of the program. \<open>ended\<close> holds the connections
  whose read pump has left its loop. One step is one of: a turn of the loop of \<open>Run\<close>
  on an event it receives; one turn of the loop of a read pump; a run of the
  initial-data task of a connection; a tick of the poller; the write pump of a
  connection taking what is in its queue.

  Clients are sent on \<open>h.unregister\<close> at two places only, the fan-out of
  \<open>broadcastToRoom\<close> and the deferred function of \<open>readPump\<close>, so the loop receives a
  connection to unregister only while such a send is pending, and receiving it takes one
  pending send away. A read pump takes a frame only while it has not left its loop.
  Registrations, broadcasts, ticks and initial-data runs may come at any time.
\<close>

record world =
  hubst :: hub
  ended :: "client set"

datatype action =
    Loop event nat
  | Frame client frame nat
  | InitialData client "string \<Rightarrow> stored list option" nat
  | Tick "match list option" nat
  | Drain client

definition received :: "hub \<Rightarrow> client \<Rightarrow> hub" where
  "received h c = h\<lparr>pendingUnregister := (pendingUnregister h)(c := pendingUnregister h c - 1)\<rparr>"

definition turn :: "hub \<Rightarrow> event \<Rightarrow> nat \<Rightarrow> hub outcome" where
  "turn h ev now =
     (case ev of
        Unregister c \<Rightarrow>
          if mu h = Writing then Blocked h else handleUnregister (received h c) c now
      | Register c \<Rightarrow> Run h ev now
      | Broadcast message \<Rightarrow> Run h ev now)"

definition outcome_of :: "world \<Rightarrow> action \<Rightarrow> hub outcome" where
  "outcome_of w a =
     (case a of
        Loop ev now \<Rightarrow> turn (hubst w) ev now
      | Frame c fr now \<Rightarrow> map_outcome state (readPump (hubst w) c fr now)
      | InitialData c store now \<Rightarrow> sendInitialData (hubst w) c store now
      | Tick fetched now \<Rightarrow> map_outcome fst (fetchMatchUpdates (hubst w) fetched now)
      | Drain c \<Rightarrow>
          Returns ((hubst w)\<lparr>send := (send (hubst w))(c := (send (hubst w) c)\<lparr>buf := []\<rparr>)\<rparr>))"

definition enabled :: "world \<Rightarrow> action \<Rightarrow> bool" where
  "enabled w a =
     (case a of
        Loop ev now \<Rightarrow>
          (case ev of
             Unregister c \<Rightarrow> 0 < pendingUnregister (hubst w) c
           | Register c \<Rightarrow> True
           | Broadcast message \<Rightarrow> True)
      | Frame c fr now \<Rightarrow> c \<notin> ended w
      | InitialData c store now \<Rightarrow> True
      | Tick fetched now \<Rightarrow> True
      | Drain c \<Rightarrow> True)"

definition after :: "world \<Rightarrow> action \<Rightarrow> world" where
  "after w a =
     \<lparr>hubst = state_of (outcome_of w a),
      ended = (case a of
                 Frame c fr now \<Rightarrow> (if fr = ReadError then insert c (ended w) else ended w)
               | Loop ev now \<Rightarrow> ended w
               | InitialData c store now \<Rightarrow> ended w
               | Tick fetched now \<Rightarrow> ended w
               | Drain c \<Rightarrow> ended w)\<rparr>"

text \<open>The program starts with a new hub; the queue of every connection is made open.\<close>

inductive reachable :: "world \<Rightarrow> bool" where
  start: "(\<And>c. \<not> closed (chans c)) \<Longrightarrow> reachable \<lparr>hubst = NewHub chans lims, ended = {}\<rparr>"
| step: "reachable w \<Longrightarrow> enabled w a \<Longrightarrow> reachable (after w a)"

fun afterAll :: "world \<Rightarrow> action list \<Rightarrow> world" where
  "afterAll w [] = w"
| "afterAll w (a # as) = afterAll (after w a) as"

fun allowed :: "world \<Rightarrow> action list \<Rightarrow> bool" where
  "allowed w [] = True"
| "allowed w (a # as) = (enabled w a \<and> allowed (after w a) as)"

text \<open>
  What holds in every state the program reaches: while the loop of the hub can still
  receive, the room index is empty and every registered connection has an empty room
  set; a closed queue belongs to a connection without rooms whose read pump has left its
  loop; and a send on \<open>h.unregister\<close> is pending only for such a read pump.
\<close>

definition sound :: "world \<Rightarrow> bool" where
  "sound w =
     ((mu (hubst w) = Unlocked \<longrightarrow>
         rooms (hubst w) = Map.empty \<and> (\<forall>c\<in>clients (hubst w). crooms c = []))
      \<and> (\<forall>c. closed (send (hubst w) c) \<longrightarrow> c \<in> ended w \<and> crooms c = [])
      \<and> (\<forall>c. 0 < pendingUnregister (hubst w) c \<longrightarrow> c \<in> ended w))"

text \<open>
  The second state differs from the first in the queue of the one connection at most,
  which is closed in both or in neither.
\<close>

definition touches_only :: "client \<Rightarrow> hub \<Rightarrow> hub \<Rightarrow> bool" where
  "touches_only c h h' =
     (mu h' = mu h \<and> rooms h' = rooms h \<and> clients h' = clients h
      \<and> pendingUnregister h' = pendingUnregister h
      \<and> matches h' = matches h \<and> matchMu h' = matchMu h
      \<and> (\<forall>x. x \<noteq> c \<longrightarrow> send h' x = send h x)
      \<and> closed (send h' c) = closed (send h c))"

text \<open>
  A step is safe when it does not panic, leaves a state in which the same holds, and
  leaves every closed queue as it is, unless it is the write pump of that queue taking
  what is left in it.
\<close>

definition safe_step :: "world \<Rightarrow> action \<Rightarrow> bool" where
  "safe_step w a =
     (\<not> panics (outcome_of w a) \<and> sound (after w a)
      \<and> (\<forall>c. closed (send (hubst w) c) \<longrightarrow> a \<noteq> Drain c \<longrightarrow>
             send (hubst (after w a)) c = send (hubst w) c))"

section \<open>The properties in the specification's words\<close>

text \<open>The answers of the room's limiter to broadcasts at the given times, in order.\<close>

fun roomAdmits :: "hub \<Rightarrow> string \<Rightarrow> nat list \<Rightarrow> bool list" where
  "roomAdmits h room [] = []"
| "roomAdmits h room (t # ts) =
     (case checkRateLimit h room t of
        Returns (ok, h1) \<Rightarrow> ok # roomAdmits h1 room ts
      | Blocked _ \<Rightarrow> []
      | Panicked _ \<Rightarrow> [])"

text \<open>The answers of one limiter to calls of \<open>Allow\<close> at the given times.\<close>

fun limiterAdmits :: "limiter \<Rightarrow> nat list \<Rightarrow> bool list" where
  "limiterAdmits lim [] = []"
| "limiterAdmits lim (t # ts) = fst (Allow lim t) # limiterAdmits (snd (Allow lim t)) ts"

text \<open>Every entry of the room index has a member.\<close>

definition entries_nonempty :: "hub \<Rightarrow> bool" where
  "entries_nonempty h = (\<forall>room cs. rooms h room = Some cs \<longrightarrow> cs \<noteq> {})"

text \<open>The room is a key of the connection's own room set.\<close>

definition listed :: "client \<Rightarrow> string \<Rightarrow> bool" where
  "listed c room = (room \<in> fst ` set (crooms c))"

text \<open>Every member of a room lists that room.\<close>

definition member_listed :: "hub \<Rightarrow> bool" where
  "member_listed h = (\<forall>room cs c. rooms h room = Some cs \<longrightarrow> c \<in> cs \<longrightarrow> listed c room)"

text \<open>
  The index as the specification describes it: a room has an entry exactly when it has a
  member or a cached match snapshot.
\<close>

definition index_as_specified :: "hub \<Rightarrow> string \<Rightarrow> bool" where
  "index_as_specified h room =
     ((rooms h room \<noteq> None) = (members h room \<noteq> {} \<or> matches h room \<noteq> None))"

text \<open>Membership as the specification describes it, in both directions.\<close>

definition consistent :: "hub \<Rightarrow> client \<Rightarrow> string \<Rightarrow> bool" where
  "consistent h c room = ((c \<in> members h room) = listed c room)"

text \<open>The limiter of a room exists only while the room has an entry.\<close>

definition limiter_as_specified :: "hub \<Rightarrow> string \<Rightarrow> bool" where
  "limiter_as_specified h room = (roomLimiters h room \<noteq> None \<longrightarrow> rooms h room \<noteq> None)"


section \<open>Example values\<close>

definition emptyChan :: chan where
  "emptyChan = \<lparr>buf = [], cap = 2, closed = False\<rparr>"

definition hub0 :: hub where
  "hub0 = NewHub (\<lambda>_. emptyChan) (\<lambda>_. NewLimiter second 5)"

definition world0 :: world where
  "world0 = \<lparr>hubst = hub0, ended = {}\<rparr>"

definition alice :: client where
  "alice = \<lparr>ptr = 1, user = ''alice'', crooms = [(''m1'', True)]\<rparr>"

definition carol :: client where
  "carol = \<lparr>ptr = 3, user = ''carol'', crooms = []\<rparr>"

definition matchA :: match where
  "matchA = \<lparr>ID = ''m1'', Status = ''SCHEDULED'', HomeScore = 0, AwayScore = 0,
              MatchData = ValidJSON ''{}''\<rparr>"

definition matchB :: match where
  "matchB = \<lparr>ID = ''m2'', Status = ''LIVE'', HomeScore = 2, AwayScore = 1,
              MatchData = ValidJSON ''{}''\<rparr>"

definition dave :: client where
  "dave = \<lparr>ptr = 4, user = ''dave'', crooms = [(''m1'', True), (''m2'', True)]\<rparr>"

text \<open>The hub with alice registered in room m1 and the snapshot of m1 cached.\<close>

definition hubAlice :: hub where
  "hubAlice = hub0\<lparr>clients := {alice}, rooms := [''m1'' \<mapsto> {alice}],
                   matches := [''m1'' \<mapsto> matchA], ConnectedClients := 1\<rparr>"

definition hello :: wsmessage where
  "hello = \<lparr>Type = MessageTypeChat, ChatRoom = ''m1'', Content = ''hello'',
            User = Some ''mallory'', Match = None, Timestamp = 7\<rparr>"

text \<open>The frame \<open>hello\<close> as the read pump of alice submits it at time 0.\<close>

definition helloAlice :: wsmessage where
  "helloAlice = hello\<lparr>User := Some ''alice'', Timestamp := 0\<rparr>"

text \<open>The hub in which the registration of alice has left the new hub.\<close>

definition hubStuck :: hub where
  "hubStuck = hub0\<lparr>mu := Writing, clients := {alice}, initialData := [alice],
                   rooms := [''m1'' \<mapsto> {alice}]\<rparr>"

text \<open>The new hub after the loop has handled one broadcast to m1 at time 0.\<close>

definition worldOne :: world where
  "worldOne = afterAll world0 [Loop (Broadcast helloAlice) 0]"


text \<open>
  The new hub after the read pump of alice has taken five frames for m1 at time 0, which
  her limiter admits, and after it has taken two more, which her limiter refuses.
\<close>

definition worldFive :: world where
  "worldFive = afterAll world0
     [Frame alice (Decoded hello) 0, Frame alice (Decoded hello) 0,
      Frame alice (Decoded hello) 0, Frame alice (Decoded hello) 0,
      Frame alice (Decoded hello) 0]"

definition worldSeven :: world where
  "worldSeven = afterAll worldFive
     [Frame alice (Decoded hello) 0, Frame alice (Decoded hello) 0]"

text \<open>
  Carol is registered, her read pump meets a read error, and the loop unregisters her.
\<close>

definition worldCarol :: world where
  "worldCarol = afterAll world0
     [Loop (Register carol) 0, Frame carol ReadError 1, Loop (Unregister carol) 2]"

section \<open>The poller\<close>


lemma sent_state: "fst (state_of (sent msg r)) = fst (state_of r)" "panics (sent msg r) = panics r"
  by (cases r; cases "state_of r"; simp)+

lemma pollMatches_frame:
  "fst (state_of (pollMatches h ms now)) = h\<lparr>matches := matches (fst (state_of (pollMatches h ms now)))\<rparr>
   \<and> \<not> panics (pollMatches h ms now)"
proof (induction ms arbitrary: h)
  case Nil
  show ?case by simp
next
  case (Cons m ms)
  show ?case
  proof (cases "case matches h (ID m) of None \<Rightarrow> True | Some old \<Rightarrow> matchNeedsUpdate old m")
    case False
    then show ?thesis using Cons.IH[of h] by simp
  next
    case True
    define h1 where "h1 = h\<lparr>matches := (matches h)(ID m \<mapsto> m)\<rparr>"
    show ?thesis
    proof (cases "mu h = Writing")
      case w: True
      have "pollMatches h (m # ms) now = Blocked (h\<lparr>matches := (matches h)(ID m \<mapsto> m)\<rparr>, [])"
        using True w by (simp add: Let_def)
      then show ?thesis by (simp del: pollMatches.simps add: fun_upd_def)
    next
      case w: False
      have p: "pollMatches h (m # ms) now = sent (updateMsg m now) (pollMatches h1 ms now)"
        using True w by (simp add: Let_def h1_def)
      define x where "x = fst (state_of (pollMatches h1 ms now))"
      have "x = h1\<lparr>matches := matches x\<rparr>" using Cons.IH[of h1] by (simp add: x_def)
      then have "x = h\<lparr>matches := matches x\<rparr>" by (simp add: h1_def)
      then show ?thesis using Cons.IH[of h1] unfolding p sent_state x_def
        by (simp del: pollMatches.simps)
    qed
  qed
qed

lemma fetchMatchUpdates_frame:
  "fst (state_of (fetchMatchUpdates h fetched now)) =
     h\<lparr>matches := matches (fst (state_of (fetchMatchUpdates h fetched now))),
       matchMu := matchMu (fst (state_of (fetchMatchUpdates h fetched now)))\<rparr>
   \<and> \<not> panics (fetchMatchUpdates h fetched now)"
proof (cases fetched)
  case None
  then show ?thesis by (simp add: fetchMatchUpdates_def)
next
  case (Some ms)
  show ?thesis
  proof (cases "matchMu h = Writing")
    case True
    then show ?thesis using Some by (simp add: fetchMatchUpdates_def)
  next
    case False
    define x where "x = fst (state_of (pollMatches h ms now))"
    have f: "x = h\<lparr>matches := matches x\<rparr>" "\<not> panics (pollMatches h ms now)"
      using pollMatches_frame[of h ms now] by (simp_all add: x_def)
    have e: "fetchMatchUpdates h fetched now =
        (case pollMatches h ms now of
                  Returns r \<Rightarrow> Returns r
                | Blocked r \<Rightarrow> Blocked (fst r\<lparr>matchMu := Writing\<rparr>, snd r)
                | Panicked r \<Rightarrow> Panicked r)"
      using Some False by (simp add: fetchMatchUpdates_def)
    show ?thesis
    proof (cases "pollMatches h ms now")
      case (Returns r)
      then have "x = fst r" by (simp add: x_def)
      then have "fst r = h\<lparr>matches := matches (fst r), matchMu := matchMu (fst r)\<rparr>"
        using f(1) by (metis hub.select_convs(4) hub.surjective hub.update_convs(3) hub.update_convs(6))
      then show ?thesis using e Returns by simp
    next
      case (Blocked r)
      then have "x = fst r" by (simp add: x_def)
      then have "fst r = h\<lparr>matches := matches (fst r)\<rparr>" using f(1) by simp
      then have "fst r\<lparr>matchMu := Writing\<rparr> = h\<lparr>matches := matches (fst r), matchMu := Writing\<rparr>"
        by (metis hub.update_convs(6))
      then show ?thesis using e Blocked by simp
    next
      case (Panicked r)
      then show ?thesis using f(2) by simp
    qed
  qed
qed

lemma fetchMatchUpdates_rooms:
  "rooms (fst (state_of (fetchMatchUpdates h fetched now))) = rooms h"
proof -
  define x where "x = fst (state_of (fetchMatchUpdates h fetched now))"
  have "x = h\<lparr>matches := matches x, matchMu := matchMu x\<rparr>"
    using fetchMatchUpdates_frame[of h fetched now] by (simp add: x_def)
  then have "rooms x = rooms (h\<lparr>matches := matches x, matchMu := matchMu x\<rparr>)" by simp
  then show ?thesis by (simp add: x_def)
qed

text \<open>The registration of alice stops the loop of the new hub for good.\<close>

lemma hub0_register_alice: "handleRegister hub0 alice 0 = Blocked hubStuck"
  by (simp add: handleRegister_def hub0_def hubStuck_def NewHub_def alice_def Let_def members_def
        broadcastToRoom_def marshal_def joinMsg_def)

text \<open>
  C5. After alice is registered the loop of \<open>Run\<close> receives nothing any more. A tick
  that then finds the new matches m1 and m2 puts m1 into the cache and waits for ever in
  the send of its event, holding \<open>h.matchMu\<close>: no event reaches the broadcast channel,
  m2 is neither cached nor announced, and no later tick runs. On the new hub the same
  tick caches both matches and submits one match event for each, carrying its snapshot.
\<close>

theorem poller_stops_at_a_stuck_hub:
  "handleRegister hub0 alice 0 = Blocked hubStuck
   \<and> fetchMatchUpdates hubStuck (Some [matchA, matchB]) 30 =
       Blocked (hubStuck\<lparr>matches := [''m1'' \<mapsto> matchA], matchMu := Writing\<rparr>, [])
   \<and> fetchMatchUpdates hub0 (Some [matchA, matchB]) 30 =
       Returns (hub0\<lparr>matches := [''m1'' \<mapsto> matchA, ''m2'' \<mapsto> matchB]\<rparr>,
                [\<lparr>Type = ''event'', ChatRoom = ''m1'', Content = [], User = None,
                  Match = Some matchA, Timestamp = 30\<rparr>,
                 \<lparr>Type = ''event'', ChatRoom = ''m2'', Content = [], User = None,
                  Match = Some matchB, Timestamp = 30\<rparr>])"
proof -
  have a: "fetchMatchUpdates hubStuck (Some [matchA, matchB]) 30 =
       Blocked (hubStuck\<lparr>matches := [''m1'' \<mapsto> matchA], matchMu := Writing\<rparr>, [])"
    by (simp add: fetchMatchUpdates_def hubStuck_def hub0_def NewHub_def matchA_def matchB_def Let_def)
  have b: "fetchMatchUpdates hub0 (Some [matchA, matchB]) 30 =
       Returns (hub0\<lparr>matches := [''m1'' \<mapsto> matchA, ''m2'' \<mapsto> matchB]\<rparr>,
                [\<lparr>Type = ''event'', ChatRoom = ''m1'', Content = [], User = None,
                  Match = Some matchA, Timestamp = 30\<rparr>,
                 \<lparr>Type = ''event'', ChatRoom = ''m2'', Content = [], User = None,
                  Match = Some matchB, Timestamp = 30\<rparr>])"
    by (simp add: fetchMatchUpdates_def hub0_def NewHub_def matchA_def matchB_def Let_def
          updateMsg_def MessageTypeEvent_def)
  show ?thesis using hub0_register_alice a b by simp
qed

section \<open>Runs of the program\<close>


lemma reachable_afterAll: "reachable w \<Longrightarrow> allowed w as \<Longrightarrow> reachable (afterAll w as)"
proof (induction as arbitrary: w)
  case Nil
  then show ?case by simp
next
  case (Cons a as)
  then have "reachable (after w a)" by (simp add: reachable.step)
  then show ?case using Cons by simp
qed

lemma reachable_world0: "reachable world0"
  unfolding world0_def hub0_def by (rule reachable.start) (simp add: emptyChan_def)

lemma hubst_world0: "hubst world0 = hub0" "ended world0 = {}"
  by (simp_all add: world0_def)

lemma after_Loop:
  "after w (Loop ev now) = \<lparr>hubst = state_of (turn (hubst w) ev now), ended = ended w\<rparr>"
  by (simp add: after_def outcome_of_def)

lemma after_Frame:
  "after w (Frame c fr now) =
     \<lparr>hubst = state (state_of (readPump (hubst w) c fr now)),
      ended = (if fr = ReadError then insert c (ended w) else ended w)\<rparr>"
  by (cases "readPump (hubst w) c fr now") (simp_all add: after_def outcome_of_def)

lemma handleBroadcast_hub0:
  "handleBroadcast hub0 helloAlice 0 =
     Returns (hub0\<lparr>roomLimiters := [''m1'' \<mapsto>
                \<lparr>interval = 1000000000, burst = 10, tokens = 9000000000, last = 0\<rparr>],
              persisted := [helloAlice], MessagesSent := 1\<rparr>)"
  by (simp add: handleBroadcast_def checkRateLimit_def hub0_def NewHub_def helloAlice_def hello_def
        NewLimiter_def Allow_def second_def Let_def broadcastToRoom_def marshal_def members_def
        MessageTypeChat_def)

lemma worldOne_eq:
  "worldOne = \<lparr>hubst = hub0\<lparr>roomLimiters := [''m1'' \<mapsto>
                \<lparr>interval = 1000000000, burst = 10, tokens = 9000000000, last = 0\<rparr>],
              persisted := [helloAlice], MessagesSent := 1\<rparr>, ended = {}\<rparr>"
  by (simp add: worldOne_def after_Loop turn_def Run_def hubst_world0 handleBroadcast_hub0)

lemma reachable_worldOne: "reachable worldOne"
  unfolding worldOne_def
  by (rule reachable_afterAll[OF reachable_world0]) (simp add: enabled_def)

section \<open>The room limiter\<close>

lemma checkRateLimit_first:
  "mu h = Unlocked \<Longrightarrow> roomLimiters h room = None \<Longrightarrow>
   checkRateLimit h room now =
     Returns (True, h\<lparr>roomLimiters := (roomLimiters h)(room \<mapsto>
        \<lparr>interval = second, burst = 10, tokens = 9 * second, last = now\<rparr>)\<rparr>)"
  by (simp add: checkRateLimit_def NewLimiter_def Allow_def Let_def second_def)

lemma checkRateLimit_known:
  "mu h = Unlocked \<Longrightarrow> roomLimiters h room = Some l \<Longrightarrow>
   checkRateLimit h room now =
     Returns (fst (Allow l now),
              h\<lparr>roomLimiters := (roomLimiters h)(room \<mapsto> snd (Allow l now))\<rparr>)"
  by (simp add: checkRateLimit_def Let_def)

text \<open>
  C2. The limiter that \<open>checkRateLimit\<close> creates holds ten tokens and gains one token
  per second: after ten broadcasts at time 0 the room refuses a broadcast half a second
  later, which a limiter of ten tokens per second with the same burst admits.
\<close>

theorem room_limiter_refills_once_per_second:
  "roomAdmits hub0 ''m1'' [0, 0, 0, 0, 0, 0, 0, 0, 0, 0, 500000000]
     = [True, True, True, True, True, True, True, True, True, True, False]
   \<and> limiterAdmits (NewLimiter (second div 10) 10) [0, 0, 0, 0, 0, 0, 0, 0, 0, 0, 500000000]
     = [True, True, True, True, True, True, True, True, True, True, True]"
  by (simp add: hub0_def NewHub_def checkRateLimit_def NewLimiter_def Allow_def Let_def second_def)

section \<open>Fan-out\<close>

text \<open>What the fan-out does when the read lock is free and no member's queue is closed.\<close>

lemma broadcastToRoom_fanout:
  assumes "marshal message = Some payload"
    and "mu h \<noteq> Writing"
    and "\<forall>c\<in>members h room. \<not> closed (send h c)"
  shows "\<exists>h'. broadcastToRoom h room message = Returns h'
     \<and> rooms h' = rooms h \<and> clients h' = clients h
     \<and> (\<forall>c\<in>members h room.
           if has_room (send h c)
           then buf (send h' c) = buf (send h c) @ [payload]
                \<and> pendingUnregister h' c = pendingUnregister h c
           else send h' c = send h c
                \<and> pendingUnregister h' c = Suc (pendingUnregister h c))
     \<and> (\<forall>c. c \<notin> members h room \<longrightarrow>
           send h' c = send h c \<and> pendingUnregister h' c = pendingUnregister h c)"
  using assms by (simp add: broadcastToRoom_def Let_def push_def)

text \<open>Under the write lock the fan-out changes nothing: it returns at once or waits.\<close>

lemma broadcastToRoom_locked:
  "mu h = Writing \<Longrightarrow>
   broadcastToRoom h room message = (if marshal message = None then Returns h else Blocked h)"
  by (auto simp: broadcastToRoom_def)

text \<open>
  C3. The fan-out of the join event of alice, the first fan-out of the program once a
  connection with a room is registered: alice is a member of m1, her queue is open and
  empty and has room, and the fan-out waits for ever at the read lock that its caller
  \<open>handleRegister\<close> holds for writing. She does not receive the event, and no later
  fan-out takes place, since the loop of \<open>Run\<close> never gets out of this call.
\<close>

theorem join_fanout_reaches_no_member:
  "handleRegister hub0 alice 0 = Blocked hubStuck
   \<and> alice \<in> members hubStuck ''m1''
   \<and> \<not> closed (send hubStuck alice) \<and> has_room (send hubStuck alice)
   \<and> broadcastToRoom hubStuck ''m1''
        \<lparr>Type = ''join'', ChatRoom = ''m1'', Content = [], User = Some ''alice'',
         Match = None, Timestamp = 0\<rparr> = Blocked hubStuck
   \<and> buf (send hubStuck alice) = []"
proof -
  have "broadcastToRoom hubStuck ''m1''
        \<lparr>Type = ''join'', ChatRoom = ''m1'', Content = [], User = Some ''alice'',
         Match = None, Timestamp = 0\<rparr> = Blocked hubStuck"
    by (simp add: broadcastToRoom_def marshal_def hubStuck_def)
  moreover have "alice \<in> members hubStuck ''m1''"
    by (simp add: members_def hubStuck_def)
  moreover have "\<not> closed (send hubStuck alice) \<and> has_room (send hubStuck alice)
      \<and> buf (send hubStuck alice) = []"
    by (simp add: hubStuck_def hub0_def NewHub_def emptyChan_def has_room_def)
  ultimately show ?thesis using hub0_register_alice by simp
qed

section \<open>The room index under the handlers\<close>


lemma broadcastToRoom_frame:
  "rooms (state_of (broadcastToRoom h room m)) = rooms h"
  "clients (state_of (broadcastToRoom h room m)) = clients h"
  "matches (state_of (broadcastToRoom h room m)) = matches h"
  "roomLimiters (state_of (broadcastToRoom h room m)) = roomLimiters h"
  "mu (state_of (broadcastToRoom h room m)) = mu h"
  "climiter (state_of (broadcastToRoom h room m)) = climiter h"
  by (simp_all add: broadcastToRoom_def Let_def split: option.splits)

lemma registerRooms_Cons:
  "state_of (registerRooms h c now (room # rs)) =
     (case broadcastToRoom (h\<lparr>rooms := (rooms h)(room \<mapsto> insert c (members h room))\<rparr>) room
             (joinMsg room c now) of
        Returns h2 \<Rightarrow> state_of (registerRooms h2 c now rs)
      | Blocked h2 \<Rightarrow> h2 | Panicked h2 \<Rightarrow> h2)"
  by (simp add: Let_def split: outcome.splits)

lemma registerRooms_rooms:
  assumes "\<And>rm room. room \<in> set rs \<Longrightarrow> Q rm \<Longrightarrow>
             Q (rm(room \<mapsto> insert c (case rm room of None \<Rightarrow> {} | Some cs \<Rightarrow> cs)))"
    and "Q (rooms h)"
  shows "Q (rooms (state_of (registerRooms h c now rs)))"
  using assms
proof (induction rs arbitrary: h)
  case Nil
  then show ?case by simp
next
  case (Cons room rs)
  let ?h1 = "h\<lparr>rooms := (rooms h)(room \<mapsto> insert c (members h room))\<rparr>"
  let ?r = "broadcastToRoom ?h1 room (joinMsg room c now)"
  have "room \<in> set (room # rs)" by simp
  then have "Q ((rooms h)(room \<mapsto> insert c (case rooms h room of None \<Rightarrow> {} | Some cs \<Rightarrow> cs)))"
    using Cons.prems(2) by (rule Cons.prems(1))
  then have q1: "Q (rooms ?h1)" unfolding members_def by simp
  have q2: "Q (rooms (state_of ?r))" using q1 by (simp add: broadcastToRoom_frame)
  show ?case
  proof (cases ?r)
    case (Returns h2)
    then have "Q (rooms h2)" using q2 by simp
    then have "Q (rooms (state_of (registerRooms h2 c now rs)))"
      using Cons.IH[of h2] Cons.prems(1) by simp
    then show ?thesis using Returns by (simp add: registerRooms_Cons del: registerRooms.simps)
  next
    case (Blocked h2)
    then show ?thesis using q2 by (simp add: registerRooms_Cons del: registerRooms.simps)
  next
    case (Panicked h2)
    then show ?thesis using q2 by (simp add: registerRooms_Cons del: registerRooms.simps)
  qed
qed

lemma unregisterRooms_Cons:
  "state_of (unregisterRooms h c now (room # rs)) =
     (case rooms h room of
        None \<Rightarrow> state_of (unregisterRooms h c now rs)
      | Some cs \<Rightarrow>
         (case broadcastToRoom (h\<lparr>rooms := (if cs - {c} = {} then (rooms h)(room := None)
                                else (rooms h)(room \<mapsto> cs - {c}))\<rparr>) room
                 (leaveMsg room c now) of
            Returns h2 \<Rightarrow> state_of (unregisterRooms h2 c now rs)
          | Blocked h2 \<Rightarrow> h2 | Panicked h2 \<Rightarrow> h2))"
  by (simp add: Let_def split: outcome.splits option.splits)

lemma unregisterRooms_rooms:
  assumes "\<And>rm room cs. Q rm \<Longrightarrow> rm room = Some cs \<Longrightarrow>
             Q (if cs - {c} = {} then rm(room := None) else rm(room \<mapsto> cs - {c}))"
    and "Q (rooms h)"
  shows "Q (rooms (state_of (unregisterRooms h c now rs)))"
  using assms
proof (induction rs arbitrary: h)
  case Nil
  then show ?case by simp
next
  case (Cons room rs)
  show ?case
  proof (cases "rooms h room")
    case None
    then show ?thesis using Cons.IH[of h] Cons.prems
      by (simp add: unregisterRooms_Cons del: unregisterRooms.simps)
  next
    case (Some cs)
    let ?h1 = "h\<lparr>rooms := (if cs - {c} = {} then (rooms h)(room := None)
                                else (rooms h)(room \<mapsto> cs - {c}))\<rparr>"
    let ?r = "broadcastToRoom ?h1 room (leaveMsg room c now)"
    have q1: "Q (rooms ?h1)" using Cons.prems(1)[of "rooms h" room cs] Cons.prems(2) Some
      by simp
    have q2: "Q (rooms (state_of ?r))" using q1 by (simp add: broadcastToRoom_frame)
    show ?thesis
    proof (cases ?r)
      case (Returns h2)
      then have "Q (rooms h2)" using q2 by simp
      then have "Q (rooms (state_of (unregisterRooms h2 c now rs)))"
        using Cons.IH[of h2] Cons.prems(1) by simp
      then show ?thesis using Returns Some
        by (simp add: unregisterRooms_Cons del: unregisterRooms.simps)
    next
      case (Blocked h2)
      then show ?thesis using q2 Some
        by (simp add: unregisterRooms_Cons del: unregisterRooms.simps)
    next
      case (Panicked h2)
      then show ?thesis using q2 Some
        by (simp add: unregisterRooms_Cons del: unregisterRooms.simps)
    qed
  qed
qed

lemma handleRegister_rooms:
  assumes "\<And>rm room. room \<in> fst ` set (crooms c) \<Longrightarrow> Q rm \<Longrightarrow>
             Q (rm(room \<mapsto> insert c (case rm room of None \<Rightarrow> {} | Some cs \<Rightarrow> cs)))"
    and "Q (rooms h)"
  shows "Q (rooms (state_of (handleRegister h c now)))"
proof -
  let ?h1 = "h\<lparr>mu := Writing, clients := insert c (clients h),
                   initialData := initialData h @ [c]\<rparr>"
  have "Q (rooms (state_of (registerRooms ?h1 c now (map fst (crooms c)))))"
  proof (rule registerRooms_rooms)
    fix rm room assume "room \<in> set (map fst (crooms c))" and q: "Q rm"
    then have "room \<in> fst ` set (crooms c)" by simp
    then show "Q (rm(room \<mapsto> insert c (case rm room of None \<Rightarrow> {} | Some cs \<Rightarrow> cs)))"
      using q by (rule assms(1))
  next
    have "rooms ?h1 = rooms h" by simp
    then show "Q (rooms ?h1)" using assms(2) by (simp only:)
  qed
  then show ?thesis using assms(2)
    by (cases "registerRooms ?h1 c now (map fst (crooms c))")
       (simp_all add: handleRegister_def Let_def)
qed

lemma handleUnregister_rooms:
  assumes "\<And>rm room cs. Q rm \<Longrightarrow> rm room = Some cs \<Longrightarrow>
             Q (if cs - {c} = {} then rm(room := None) else rm(room \<mapsto> cs - {c}))"
    and "Q (rooms h)"
  shows "Q (rooms (state_of (handleUnregister h c now)))"
proof -
  let ?h1 = "h\<lparr>mu := Writing, clients := clients h - {c},
                   send := (send h)(c := (send h c)\<lparr>closed := True\<rparr>)\<rparr>"
  have "Q (rooms (state_of (unregisterRooms ?h1 c now (map fst (crooms c)))))"
  proof (rule unregisterRooms_rooms)
    fix rm :: "string \<rightharpoonup> client set" and room cs
    assume "Q rm" "rm room = Some cs"
    then show "Q (if cs - {c} = {} then rm(room := None) else rm(room \<mapsto> cs - {c}))"
      by (rule assms(1))
  next
    have "rooms ?h1 = rooms h" by simp
    then show "Q (rooms ?h1)" using assms(2) by (simp only:)
  qed
  then show ?thesis using assms(2)
    by (cases "unregisterRooms ?h1 c now (map fst (crooms c))")
       (simp_all add: handleUnregister_def Let_def)
qed

lemma handleBroadcast_rooms: "rooms (state_of (handleBroadcast h m now)) = rooms h"
proof (cases "mu h = Unlocked")
  case False
  then show ?thesis by (simp add: handleBroadcast_def checkRateLimit_def)
next
  case True
  then obtain ok h1 where c: "checkRateLimit h (ChatRoom m) now = Returns (ok, h1)"
    and r1: "rooms h1 = rooms h"
    by (simp add: checkRateLimit_def Let_def)
  show ?thesis
  proof (cases ok)
    case False
    then show ?thesis using c r1 by (simp add: handleBroadcast_def)
  next
    case True
    define h2 where "h2 = (if Type m = MessageTypeChat then h1\<lparr>persisted := persisted h1 @ [m]\<rparr> else h1)"
    have r2: "rooms (state_of (broadcastToRoom h2 (ChatRoom m) m)) = rooms h"
      using r1 by (simp add: broadcastToRoom_frame h2_def)
    have hb: "handleBroadcast h m now =
        (case broadcastToRoom h2 (ChatRoom m) m of
                 Returns h3 \<Rightarrow> Returns (h3\<lparr>MessagesSent := Suc (MessagesSent h3)\<rparr>)
               | Blocked h3 \<Rightarrow> Blocked h3
               | Panicked h3 \<Rightarrow> Panicked h3)"
      using c True by (simp add: handleBroadcast_def h2_def)
    show ?thesis
      by (cases "broadcastToRoom h2 (ChatRoom m) m") (use r2 hb in simp_all)
  qed
qed



lemma Run_entries_nonempty:
  assumes "entries_nonempty h"
  shows "entries_nonempty (state_of (Run h ev now))"
proof (cases ev)
  case (Register c)
  have "entries_nonempty (state_of (handleRegister h c now))"
    unfolding entries_nonempty_def
    by (rule handleRegister_rooms[where Q = "\<lambda>rm. \<forall>room cs. rm room = Some cs \<longrightarrow> cs \<noteq> {}"])
       (use assms in \<open>auto simp: entries_nonempty_def\<close>)
  then show ?thesis using Register by (simp add: Run_def)
next
  case (Unregister c)
  have "entries_nonempty (state_of (handleUnregister h c now))"
    unfolding entries_nonempty_def
    by (rule handleUnregister_rooms[where Q = "\<lambda>rm. \<forall>room cs. rm room = Some cs \<longrightarrow> cs \<noteq> {}"])
       (use assms in \<open>auto simp: entries_nonempty_def split: if_splits\<close>)
  then show ?thesis using Unregister by (simp add: Run_def)
next
  case (Broadcast m)
  then show ?thesis using assms by (simp add: Run_def entries_nonempty_def handleBroadcast_rooms)
qed

lemma Run_member_listed:
  assumes "member_listed h"
  shows "member_listed (state_of (Run h ev now))"
proof (cases ev)
  case (Register c)
  have "member_listed (state_of (handleRegister h c now))"
    unfolding member_listed_def
    by (rule handleRegister_rooms[where Q = "\<lambda>rm. \<forall>room cs x. rm room = Some cs \<longrightarrow> x \<in> cs \<longrightarrow> listed x room"])
       (use assms in \<open>auto simp: member_listed_def listed_def split: option.splits\<close>)
  then show ?thesis using Register by (simp add: Run_def)
next
  case (Unregister c)
  have "member_listed (state_of (handleUnregister h c now))"
    unfolding member_listed_def
    by (rule handleUnregister_rooms[where Q = "\<lambda>rm. \<forall>room cs x. rm room = Some cs \<longrightarrow> x \<in> cs \<longrightarrow> listed x room"])
       (use assms in \<open>auto simp: member_listed_def split: if_splits\<close>)
  then show ?thesis using Unregister by (simp add: Run_def)
next
  case (Broadcast m)
  then show ?thesis using assms by (simp add: Run_def member_listed_def handleBroadcast_rooms)
qed


lemma broadcastToRoom_cache:
  "broadcastToRoom (h\<lparr>matches := cache\<rparr>) room m =
     map_outcome (\<lambda>x. x\<lparr>matches := cache\<rparr>) (broadcastToRoom h room m)"
  by (simp add: broadcastToRoom_def members_def Let_def split: option.splits cong: if_cong)

lemma cache_rooms_swap:
  "h\<lparr>matches := cache, rooms := R\<rparr> = h\<lparr>rooms := R, matches := cache\<rparr>"
  by simp

lemma cache_close_swap:
  "h\<lparr>matches := cache, mu := a, clients := b, send := s\<rparr>
     = h\<lparr>mu := a, clients := b, send := s, matches := cache\<rparr>"
  by simp

lemma unregisterRooms_cache:
  "unregisterRooms (h\<lparr>matches := cache\<rparr>) c now rs =
     map_outcome (\<lambda>x. x\<lparr>matches := cache\<rparr>) (unregisterRooms h c now rs)"
proof (induction rs arbitrary: h)
  case Nil
  then show ?case by simp
next
  case (Cons room rs)
  show ?case
  proof (cases "rooms h room")
    case None
    then show ?thesis using Cons.IH[of h] by simp
  next
    case (Some cs)
    define h1 where "h1 = h\<lparr>rooms := (if cs - {c} = {} then (rooms h)(room := None)
                                else (rooms h)(room \<mapsto> cs - {c}))\<rparr>"
    have e: "h\<lparr>matches := cache, rooms := (if cs - {c} = {} then (rooms h)(room := None)
                                else (rooms h)(room \<mapsto> cs - {c}))\<rparr> = h1\<lparr>matches := cache\<rparr>"
      by (simp add: h1_def)
    have u1: "unregisterRooms h c now (room # rs) =
       (case broadcastToRoom h1 room (leaveMsg room c now) of
               Returns h2 \<Rightarrow> unregisterRooms h2 c now rs
             | Blocked h2 \<Rightarrow> Blocked h2
             | Panicked h2 \<Rightarrow> Panicked h2)"
      using Some by (simp add: h1_def Let_def)
    have u2: "unregisterRooms (h\<lparr>matches := cache\<rparr>) c now (room # rs) =
       (case broadcastToRoom (h1\<lparr>matches := cache\<rparr>) room (leaveMsg room c now) of
               Returns h2 \<Rightarrow> unregisterRooms h2 c now rs
             | Blocked h2 \<Rightarrow> Blocked h2
             | Panicked h2 \<Rightarrow> Panicked h2)"
      using Some by (simp add: Let_def h1_def cache_rooms_swap)
    show ?thesis
      unfolding u1 u2 broadcastToRoom_cache
      by (cases "broadcastToRoom h1 room (leaveMsg room c now)") (simp_all add: Cons.IH)
  qed
qed

lemma handleUnregister_cache:
  "rooms (state_of (handleUnregister (h\<lparr>matches := cache\<rparr>) c now)) =
   rooms (state_of (handleUnregister h c now))"
proof (cases "mu h = Unlocked \<and> c \<in> clients h")
  case False
  then show ?thesis by (auto simp: handleUnregister_def)
next
  case True
  define h1 where "h1 = h\<lparr>mu := Writing, clients := clients h - {c},
                   send := (send h)(c := (send h c)\<lparr>closed := True\<rparr>)\<rparr>"
  have e: "h\<lparr>matches := cache, mu := Writing, clients := clients h - {c},
                   send := (send h)(c := (send h c)\<lparr>closed := True\<rparr>)\<rparr> = h1\<lparr>matches := cache\<rparr>"
    by (simp add: h1_def)
  have u1: "handleUnregister h c now =
      (case unregisterRooms h1 c now (map fst (crooms c)) of
             Returns h2 \<Rightarrow>
               Returns (h2\<lparr>ConnectedClients := ConnectedClients h2 - 1, mu := Unlocked\<rparr>)
           | Blocked h2 \<Rightarrow> Blocked h2
           | Panicked h2 \<Rightarrow> Panicked h2)"
    using True by (simp add: handleUnregister_def h1_def Let_def)
  have u2: "handleUnregister (h\<lparr>matches := cache\<rparr>) c now =
      (case unregisterRooms (h1\<lparr>matches := cache\<rparr>) c now (map fst (crooms c)) of
             Returns h2 \<Rightarrow>
               Returns (h2\<lparr>ConnectedClients := ConnectedClients h2 - 1, mu := Unlocked\<rparr>)
           | Blocked h2 \<Rightarrow> Blocked h2
           | Panicked h2 \<Rightarrow> Panicked h2)"
    using True by (simp add: handleUnregister_def Let_def h1_def cache_close_swap)
  show ?thesis
    unfolding u1 u2 unregisterRooms_cache
    by (cases "unregisterRooms h1 c now (map fst (crooms c))") simp_all
qed

text \<open>
  C1 (as the code has it). Every entry of the room index has a member: this holds in the
  new hub and is kept by every turn of the hub's loop and by every poll, in whatever
  state the call leaves the hub. The match cache plays no part: a poll never changes the
  index, and the index that \<open>handleUnregister\<close> leaves is the same whatever the cache
  holds, so a room whose last member leaves loses its entry also when a snapshot is
  cached, and a cached snapshot alone never gives a room an entry.
\<close>

theorem room_entries_follow_members_only:
  "entries_nonempty (NewHub chans lims)
   \<and> (entries_nonempty h \<longrightarrow>
        entries_nonempty (state_of (Run h ev now))
        \<and> entries_nonempty (fst (state_of (fetchMatchUpdates h fetched now))))
   \<and> rooms (fst (state_of (fetchMatchUpdates h fetched now))) = rooms h
   \<and> rooms (state_of (handleUnregister (h\<lparr>matches := cache\<rparr>) c now))
       = rooms (state_of (handleUnregister h c now))"
proof -
  have a: "entries_nonempty (NewHub chans lims)"
    by (simp add: entries_nonempty_def NewHub_def)
  have b: "rooms (fst (state_of (fetchMatchUpdates h fetched now))) = rooms h"
    by (rule fetchMatchUpdates_rooms)
  have c: "entries_nonempty h \<longrightarrow> entries_nonempty (fst (state_of (fetchMatchUpdates h fetched now)))"
    using b by (simp add: entries_nonempty_def)
  show ?thesis using a b c Run_entries_nonempty handleUnregister_cache by blast
qed

lemma hubAlice_unregister:
  "handleUnregister hubAlice alice 0 =
     Blocked (hubAlice\<lparr>mu := Writing, clients := {}, rooms := Map.empty,
                       send := (\<lambda>_. emptyChan)(alice := emptyChan\<lparr>closed := True\<rparr>)\<rparr>)"
  by (simp add: handleUnregister_def hubAlice_def hub0_def NewHub_def alice_def Let_def
        broadcastToRoom_def marshal_def leaveMsg_def)

text \<open>
  Alice is the only member of m1, whose snapshot is cached; when she is unregistered the
  entry of m1 goes and the snapshot stays.
\<close>

theorem room_entries_follow_members_only_witness:
  "entries_nonempty hubAlice
   \<and> entries_nonempty (state_of (Run hubAlice (Unregister alice) 0))
   \<and> rooms (state_of (Run hubAlice (Unregister alice) 0)) ''m1'' = None
   \<and> matches (state_of (Run hubAlice (Unregister alice) 0)) ''m1'' = Some matchA"
proof -
  have e: "entries_nonempty hubAlice"
    by (simp add: entries_nonempty_def hubAlice_def)
  have "entries_nonempty (state_of (Run hubAlice (Unregister alice) 0))"
    using room_entries_follow_members_only[of _ _ hubAlice "Unregister alice" 0] e by blast
  then show ?thesis using e
    by (simp add: Run_def hubAlice_unregister) (simp add: hubAlice_def hub0_def NewHub_def)
qed

text \<open>
  The index as specified fails after the first poll of a live match nobody has joined,
  and after the last member of a room with a cached snapshot is unregistered.
\<close>

theorem index_ignores_match_cache_counterexample:
  "\<not> index_as_specified (fst (state_of (fetchMatchUpdates hub0 (Some [matchA]) 0))) ''m1''
   \<and> \<not> index_as_specified (state_of (handleUnregister hubAlice alice 0)) ''m1''"
  by (simp add: hubAlice_unregister)
     (simp add: index_as_specified_def fetchMatchUpdates_def hub0_def NewHub_def matchA_def
        members_def hubAlice_def)

section \<open>Membership in both directions\<close>

text \<open>
  C4 (as the code has it). Every connection in a room's member set lists that room in
  its own room set: this holds in the new hub and is kept by every turn of the hub's
  loop, in whatever state the call leaves the hub. The converse is not kept.
\<close>

theorem members_list_their_room:
  "member_listed (NewHub chans lims)
   \<and> (member_listed h \<longrightarrow> member_listed (state_of (Run h ev now)))"
proof -
  have "member_listed (NewHub chans lims)"
    by (simp add: member_listed_def NewHub_def)
  then show ?thesis using Run_member_listed by blast
qed

lemma hub0_register_dave:
  "handleRegister hub0 dave 0 =
     Blocked (hub0\<lparr>mu := Writing, clients := {dave}, initialData := [dave],
                   rooms := [''m1'' \<mapsto> {dave}]\<rparr>)"
  by (simp add: handleRegister_def hub0_def NewHub_def dave_def Let_def members_def
        broadcastToRoom_def marshal_def joinMsg_def)

theorem members_list_their_room_witness:
  "member_listed hub0
   \<and> member_listed (state_of (Run hub0 (Register dave) 0))
   \<and> dave \<in> members (state_of (Run hub0 (Register dave) 0)) ''m1''
   \<and> listed dave ''m1''"
proof -
  have e: "member_listed hub0"
    by (simp add: member_listed_def hub0_def NewHub_def)
  have "member_listed (state_of (Run hub0 (Register dave) 0))"
    using members_list_their_room[of _ _ hub0 "Register dave" 0] e by blast
  then show ?thesis using e
    by (simp add: Run_def hub0_register_dave members_def) (simp add: listed_def dave_def)
qed

text \<open>
  The converse fails for a connection that lists m1 and is not registered yet, for alice
  after she is unregistered (her own room set is never changed), and for dave, whose
  registration stops at the fan-out of the join event of his first room.
\<close>

theorem membership_not_bidirectional_counterexample:
  "\<not> consistent hub0 alice ''m1''
   \<and> \<not> consistent (state_of (Run hubAlice (Unregister alice) 0)) alice ''m1''
   \<and> \<not> consistent (state_of (Run hub0 (Register dave) 0)) dave ''m2''"
  by (simp add: Run_def hub0_register_dave hubAlice_unregister)
     (simp add: consistent_def members_def listed_def hub0_def NewHub_def alice_def dave_def)

section \<open>Registering a connection that has a room\<close>

text \<open>
  C10. \<open>handleRegister\<close> inserts the connection into the member set of the first room
  it visits and then calls \<open>broadcastToRoom\<close> while it holds the write lock of \<open>h.mu\<close>;
  \<open>broadcastToRoom\<close> asks for the read lock of the same mutex and waits for ever.
  The join event is never fanned out: the hub stays in the state below, with every send
  queue as it was.
\<close>

theorem register_blocks_before_join_fanout:
  assumes "mu h = Unlocked" and "crooms c = (room, b) # rest"
  shows "handleRegister h c now =
     Blocked (h\<lparr>mu := Writing, clients := insert c (clients h),
                initialData := initialData h @ [c],
                rooms := (rooms h)(room \<mapsto> insert c (members h room))\<rparr>)"
  using assms
  by (simp add: handleRegister_def Let_def members_def broadcastToRoom_def marshal_def joinMsg_def)

theorem register_blocks_before_join_fanout_witness:
  "mu hub0 = Unlocked \<and> crooms alice = (''m1'', True) # []
   \<and> handleRegister hub0 alice 0 =
       Blocked (hub0\<lparr>mu := Writing, clients := {alice}, initialData := [alice],
                     rooms := [''m1'' \<mapsto> {alice}]\<rparr>)
   \<and> buf (send (state_of (handleRegister hub0 alice 0)) alice) = []"
proof -
  have a: "mu hub0 = Unlocked" by (simp add: hub0_def NewHub_def)
  have b: "crooms alice = (''m1'', True) # []" by (simp add: alice_def)
  show ?thesis
    using register_blocks_before_join_fanout[OF a b, of 0] a b
    by (simp add: members_def) (simp add: hub0_def NewHub_def emptyChan_def)
qed

section \<open>The lifetime of a room limiter\<close>


lemma registerRooms_keeps:
  assumes "\<And>h R. f (h\<lparr>rooms := R\<rparr>) = f h"
    and "\<And>h room m. f (state_of (broadcastToRoom h room m)) = f h"
  shows "f (state_of (registerRooms h c now rs)) = f h"
proof (induction rs arbitrary: h)
  case Nil
  then show ?case by simp
next
  case (Cons room rs)
  define h1 where "h1 = h\<lparr>rooms := (rooms h)(room \<mapsto> insert c (members h room))\<rparr>"
  have f1: "f (state_of (broadcastToRoom h1 room (joinMsg room c now))) = f h"
    using assms by (simp add: h1_def)
  show ?case
    by (cases "broadcastToRoom h1 room (joinMsg room c now)")
       (use f1 Cons.IH in \<open>simp_all add: registerRooms_Cons h1_def del: registerRooms.simps\<close>)
qed

lemma unregisterRooms_keeps:
  assumes "\<And>h R. f (h\<lparr>rooms := R\<rparr>) = f h"
    and "\<And>h room m. f (state_of (broadcastToRoom h room m)) = f h"
  shows "f (state_of (unregisterRooms h c now rs)) = f h"
proof (induction rs arbitrary: h)
  case Nil
  then show ?case by simp
next
  case (Cons room rs)
  show ?case
  proof (cases "rooms h room")
    case None
    then show ?thesis using Cons.IH[of h]
      by (simp add: unregisterRooms_Cons del: unregisterRooms.simps)
  next
    case (Some cs)
    define h1 where "h1 = h\<lparr>rooms := (if cs - {c} = {} then (rooms h)(room := None)
                                else (rooms h)(room \<mapsto> cs - {c}))\<rparr>"
    have f1: "f (state_of (broadcastToRoom h1 room (leaveMsg room c now))) = f h"
      using assms by (simp add: h1_def)
    have u: "state_of (unregisterRooms h c now (room # rs)) =
       (case broadcastToRoom h1 room (leaveMsg room c now) of
            Returns h2 \<Rightarrow> state_of (unregisterRooms h2 c now rs)
          | Blocked h2 \<Rightarrow> h2 | Panicked h2 \<Rightarrow> h2)"
      using Some unfolding h1_def by (simp only: unregisterRooms_Cons option.case)
    show ?thesis
      by (cases "broadcastToRoom h1 room (leaveMsg room c now)")
         (use f1 Cons.IH u in simp_all)
  qed
qed

lemma handleRegister_limiters:
  "roomLimiters (state_of (handleRegister h c now)) = roomLimiters h"
proof (cases "mu h = Unlocked")
  case False
  then show ?thesis by (simp add: handleRegister_def)
next
  case True
  define h1 where "h1 = h\<lparr>mu := Writing, clients := insert c (clients h),
                   initialData := initialData h @ [c]\<rparr>"
  have "roomLimiters (state_of (registerRooms h1 c now (map fst (crooms c)))) = roomLimiters h1"
    by (rule registerRooms_keeps) (simp_all add: broadcastToRoom_frame)
  then have k: "roomLimiters (state_of (registerRooms h1 c now (map fst (crooms c)))) = roomLimiters h"
    by (simp add: h1_def)
  have u: "handleRegister h c now =
     (case registerRooms h1 c now (map fst (crooms c)) of
             Returns h2 \<Rightarrow>
               Returns (h2\<lparr>ConnectedClients := ConnectedClients h2 + 1, mu := Unlocked\<rparr>)
           | Blocked h2 \<Rightarrow> Blocked h2
           | Panicked h2 \<Rightarrow> Panicked h2)"
    using True by (simp add: handleRegister_def h1_def Let_def)
  show ?thesis
    by (cases "registerRooms h1 c now (map fst (crooms c))") (use k u in simp_all)
qed

lemma handleUnregister_limiters:
  "roomLimiters (state_of (handleUnregister h c now)) = roomLimiters h"
proof (cases "mu h = Unlocked \<and> c \<in> clients h")
  case False
  then show ?thesis by (auto simp: handleUnregister_def)
next
  case True
  define h1 where "h1 = h\<lparr>mu := Writing, clients := clients h - {c},
                   send := (send h)(c := (send h c)\<lparr>closed := True\<rparr>)\<rparr>"
  have "roomLimiters (state_of (unregisterRooms h1 c now (map fst (crooms c)))) = roomLimiters h1"
    by (rule unregisterRooms_keeps) (simp_all add: broadcastToRoom_frame)
  then have k: "roomLimiters (state_of (unregisterRooms h1 c now (map fst (crooms c)))) = roomLimiters h"
    by (simp add: h1_def)
  have u: "handleUnregister h c now =
      (case unregisterRooms h1 c now (map fst (crooms c)) of
             Returns h2 \<Rightarrow>
               Returns (h2\<lparr>ConnectedClients := ConnectedClients h2 - 1, mu := Unlocked\<rparr>)
           | Blocked h2 \<Rightarrow> Blocked h2
           | Panicked h2 \<Rightarrow> Panicked h2)"
    using True by (simp add: handleUnregister_def h1_def Let_def)
  show ?thesis
    by (cases "unregisterRooms h1 c now (map fst (crooms c))") (use k u in simp_all)
qed

text \<open>
  C9 (as the code has it). Registering and unregistering a connection leave the map of
  room limiters as it is, in whatever state the call leaves the hub. The first broadcast
  to a room creates its limiter, with one token per second and ten tokens of which it
  takes one; every later one asks the limiter it finds in the map. So a limiter, once
  created, stays whether or not the room has an entry in the index.
\<close>

theorem room_limiter_outlives_room_entry:
  "roomLimiters (state_of (handleUnregister h c now)) = roomLimiters h
   \<and> roomLimiters (state_of (handleRegister h c now)) = roomLimiters h
   \<and> (mu h = Unlocked \<longrightarrow> roomLimiters h room = None \<longrightarrow>
        checkRateLimit h room later =
          Returns (True,
                   h\<lparr>roomLimiters := (roomLimiters h)(room \<mapsto>
                       \<lparr>interval = 1000000000, burst = 10, tokens = 9000000000,
                        last = later\<rparr>)\<rparr>))
   \<and> (mu h = Unlocked \<longrightarrow> roomLimiters h room = Some l \<longrightarrow>
        checkRateLimit h room later =
          Returns (fst (Allow l later),
                   h\<lparr>roomLimiters := (roomLimiters h)(room \<mapsto> snd (Allow l later))\<rparr>))"
proof -
  have "mu h = Unlocked \<longrightarrow> roomLimiters h room = None \<longrightarrow>
        checkRateLimit h room later =
          Returns (True,
                   h\<lparr>roomLimiters := (roomLimiters h)(room \<mapsto>
                       \<lparr>interval = 1000000000, burst = 10, tokens = 9000000000,
                        last = later\<rparr>)\<rparr>)"
    using checkRateLimit_first[of h room later] by (simp add: second_def)
  then show ?thesis
    using handleUnregister_limiters handleRegister_limiters checkRateLimit_known by blast
qed

text \<open>
  The new hub has no limiter for m1. After one broadcast to m1, which nobody has joined,
  the limiter of m1 is there and the room has no entry; registering and unregistering
  carol leave it, and the next broadcast takes its second token.
\<close>

theorem room_limiter_outlives_room_entry_witness:
  "reachable world0 \<and> reachable worldOne
   \<and> mu hub0 = Unlocked \<and> roomLimiters hub0 ''m1'' = None
   \<and> checkRateLimit hub0 ''m1'' 0 =
       Returns (True, hub0\<lparr>roomLimiters := [''m1'' \<mapsto>
          \<lparr>interval = 1000000000, burst = 10, tokens = 9000000000, last = 0\<rparr>]\<rparr>)
   \<and> mu (hubst worldOne) = Unlocked
   \<and> roomLimiters (hubst worldOne) ''m1'' =
       Some \<lparr>interval = 1000000000, burst = 10, tokens = 9000000000, last = 0\<rparr>
   \<and> rooms (hubst worldOne) ''m1'' = None
   \<and> roomLimiters (state_of (handleRegister (hubst worldOne) carol 1)) ''m1'' =
       Some \<lparr>interval = 1000000000, burst = 10, tokens = 9000000000, last = 0\<rparr>
   \<and> roomLimiters (state_of (handleUnregister (hubst worldOne) carol 2)) ''m1'' =
       Some \<lparr>interval = 1000000000, burst = 10, tokens = 9000000000, last = 0\<rparr>
   \<and> checkRateLimit (hubst worldOne) ''m1'' 0 =
       Returns (True, (hubst worldOne)\<lparr>roomLimiters := [''m1'' \<mapsto>
          \<lparr>interval = 1000000000, burst = 10, tokens = 8000000000, last = 0\<rparr>]\<rparr>)"
proof -
  let ?l = "\<lparr>interval = 1000000000, burst = 10, tokens = 9000000000, last = 0\<rparr>"
  have a: "mu hub0 = Unlocked" "roomLimiters hub0 ''m1'' = None"
    by (simp_all add: hub0_def NewHub_def)
  have b: "mu (hubst worldOne) = Unlocked" "roomLimiters (hubst worldOne) ''m1'' = Some ?l"
    "rooms (hubst worldOne) ''m1'' = None"
    by (simp_all add: worldOne_eq) (simp_all add: hub0_def NewHub_def)
  have al: "Allow ?l 0 = (True, \<lparr>interval = 1000000000, burst = 10, tokens = 8000000000, last = 0\<rparr>)"
    by (simp add: Allow_def Let_def)
  have m: "(roomLimiters (hubst worldOne))(''m1'' \<mapsto> x) = [''m1'' \<mapsto> x]" for x
    by (simp add: worldOne_eq)
  have 1: "checkRateLimit hub0 ''m1'' 0 =
       Returns (True, hub0\<lparr>roomLimiters := [''m1'' \<mapsto> ?l]\<rparr>)"
  proof -
    have e: "roomLimiters hub0 = Map.empty" by (simp add: hub0_def NewHub_def)
    show ?thesis
      using room_limiter_outlives_room_entry[of hub0 carol 0 "''m1''" 0] a
      by (simp add: e)
  qed
  have 2: "roomLimiters (state_of (handleRegister (hubst worldOne) carol 1)) ''m1'' = Some ?l"
    using room_limiter_outlives_room_entry[of "hubst worldOne" carol 1] b by simp
  have 3: "roomLimiters (state_of (handleUnregister (hubst worldOne) carol 2)) ''m1'' = Some ?l"
    using room_limiter_outlives_room_entry[of "hubst worldOne" carol 2] b by simp
  have 4: "checkRateLimit (hubst worldOne) ''m1'' 0 =
       Returns (True, (hubst worldOne)\<lparr>roomLimiters := [''m1'' \<mapsto>
          \<lparr>interval = 1000000000, burst = 10, tokens = 8000000000, last = 0\<rparr>]\<rparr>)"
    using room_limiter_outlives_room_entry[of "hubst worldOne" _ _ "''m1''" 0 ?l] b al m by simp
  show ?thesis using reachable_world0 reachable_worldOne a b 1 2 3 4 by simp
qed

text \<open>
  After that one broadcast the limiter of m1 exists and the room has no entry in the
  index.
\<close>

theorem limiter_without_room_entry_counterexample:
  "reachable worldOne \<and> \<not> limiter_as_specified (hubst worldOne) ''m1''"
  using reachable_worldOne
  by (simp add: limiter_as_specified_def worldOne_eq) (simp add: hub0_def NewHub_def)

section \<open>The read pump\<close>


lemma Allow_refused: "\<not> fst (Allow l t) \<Longrightarrow> snd (Allow l t) = l"
proof -
  assume r: "\<not> fst (Allow l t)"
  define b where "b = (interval l \<le> min (burst l * interval l) (tokens l + (t - last l)))"
  have e: "Allow l t =
     (if b then (True, l\<lparr>tokens := min (burst l * interval l) (tokens l + (t - last l)) - interval l,
                          last := t\<rparr>)
      else (False, l))"
    unfolding b_def Allow_def Let_def ..
  show ?thesis using r unfolding e by (cases b) simp_all
qed

lemma readPump_refused:
  assumes "\<not> fst (Allow (climiter h c) now)"
    and "\<not> closed (send h c)"
  shows "readPump h c (Decoded m) now =
     (if has_room (send h c)
      then Returns \<lparr>state = h\<lparr>send := (send h)(c := (send h c)\<lparr>buf := buf (send h c) @
                        [\<lparr>Type = ''error'', ChatRoom = [], Content = ''Rate limit exceeded'',
                          User = None, Match = None, Timestamp = 0\<rparr>]\<rparr>)\<rparr>,
                    submitted = None, reading = True\<rparr>
      else Blocked \<lparr>state = h, submitted = None, reading = True\<rparr>)"
proof -
  have "snd (Allow (climiter h c) now) = climiter h c"
    using assms(1) by (rule Allow_refused)
  then have "h\<lparr>climiter := (climiter h)(c := snd (Allow (climiter h c) now))\<rparr> = h"
    by simp
  then show ?thesis using assms
    by (simp add: readPump_def Let_def replyError_def sendBlocking_def lift_reply_def
          marshal_def errorMsg_def push_def MessageTypeError_def)
qed

text \<open>A frame of alice for m1 that her limiter admits, on a hub whose loop receives.\<close>

lemma alice_frame_admitted:
  assumes "climiter h alice = \<lparr>interval = 1000000000, burst = 5, tokens = Suc k * 1000000000, last = 0\<rparr>"
    and "mu h = Unlocked" and "k < 5"
  shows "readPump h alice (Decoded hello) 0 =
     Returns \<lparr>state = h\<lparr>climiter := (climiter h)(alice :=
                  \<lparr>interval = 1000000000, burst = 5, tokens = k * 1000000000, last = 0\<rparr>)\<rparr>,
              submitted = Some helloAlice, reading = True\<rparr>"
  using assms
  by (simp add: readPump_def Let_def Allow_def canAccessRoom_def alice_def hello_def helloAlice_def)

lemma worldFive_eq:
  "worldFive = \<lparr>hubst = hub0\<lparr>climiter := (\<lambda>_. NewLimiter second 5)(alice :=
        \<lparr>interval = 1000000000, burst = 5, tokens = 0, last = 0\<rparr>)\<rparr>, ended = {}\<rparr>"
  by (simp add: worldFive_def after_Frame hubst_world0)
     (simp add: readPump_def Let_def Allow_def canAccessRoom_def alice_def hello_def
        hub0_def NewHub_def NewLimiter_def second_def)

lemma worldSeven_eq:
  "worldSeven = \<lparr>hubst = hub0\<lparr>climiter := (\<lambda>_. NewLimiter second 5)(alice :=
        \<lparr>interval = 1000000000, burst = 5, tokens = 0, last = 0\<rparr>),
      send := (\<lambda>_. emptyChan)(alice := \<lparr>buf =
         [\<lparr>Type = ''error'', ChatRoom = [], Content = ''Rate limit exceeded'',
           User = None, Match = None, Timestamp = 0\<rparr>,
          \<lparr>Type = ''error'', ChatRoom = [], Content = ''Rate limit exceeded'',
           User = None, Match = None, Timestamp = 0\<rparr>], cap = 2, closed = False\<rparr>)\<rparr>,
     ended = {}\<rparr>"
  by (simp add: worldSeven_def worldFive_eq after_Frame)
     (simp add: readPump_def Let_def Allow_def hub0_def NewHub_def replyError_def sendBlocking_def
        lift_reply_def marshal_def errorMsg_def push_def MessageTypeError_def emptyChan_def
        has_room_def)

lemma reachable_worldFive: "reachable worldFive"
  unfolding worldFive_def
  by (rule reachable_afterAll[OF reachable_world0]) (simp add: enabled_def after_def world0_def)

lemma reachable_worldSeven: "reachable worldSeven"
  unfolding worldSeven_def
  by (rule reachable_afterAll[OF reachable_worldFive]) (simp add: enabled_def after_def worldFive_eq)


text \<open>
  C7 (as the code has it). When the connection's own limiter refuses a decoded frame and
  the connection's queue is open: if the queue has room, the read pump puts exactly one
  event of type "error" and content "Rate limit exceeded" at the end of that queue,
  submits nothing to the broadcast channel and goes on reading, and no other queue and
  nothing else in the hub changes; if the queue is full, the read pump waits in the send
  of that event, with nothing enqueued and nothing submitted.
\<close>

theorem rate_limited_frame_gets_one_error:
  assumes "\<not> fst (Allow (climiter h c) now)"
    and "\<not> closed (send h c)"
  shows "readPump h c (Decoded m) now =
     (if has_room (send h c)
      then Returns \<lparr>state = h\<lparr>send := (send h)(c := (send h c)\<lparr>buf := buf (send h c) @
                        [\<lparr>Type = ''error'', ChatRoom = [], Content = ''Rate limit exceeded'',
                          User = None, Match = None, Timestamp = 0\<rparr>]\<rparr>)\<rparr>,
                    submitted = None, reading = True\<rparr>
      else Blocked \<lparr>state = h, submitted = None, reading = True\<rparr>)"
  using assms by (rule readPump_refused)

lemma worldFive_alice:
  "\<not> fst (Allow (climiter (hubst worldFive) alice) 0)"
  "send (hubst worldFive) alice = emptyChan"
  by (simp_all add: worldFive_eq Allow_def Let_def) (simp add: hub0_def NewHub_def)

lemma worldSeven_alice:
  "\<not> fst (Allow (climiter (hubst worldSeven) alice) 0)"
  "\<not> closed (send (hubst worldSeven) alice)"
  "\<not> has_room (send (hubst worldSeven) alice)"
  by (simp_all add: worldSeven_eq Allow_def Let_def has_room_def)

text \<open>
  Alice's limiter has given its five tokens; her queue is empty, and her next frame
  brings her one error event.
\<close>

theorem rate_limited_frame_gets_one_error_witness:
  "reachable worldFive
   \<and> \<not> fst (Allow (climiter (hubst worldFive) alice) 0)
   \<and> \<not> closed (send (hubst worldFive) alice)
   \<and> readPump (hubst worldFive) alice (Decoded hello) 0 =
       Returns \<lparr>state = (hubst worldFive)\<lparr>send := (send (hubst worldFive))(alice :=
                   \<lparr>buf = [\<lparr>Type = ''error'', ChatRoom = [], Content = ''Rate limit exceeded'',
                            User = None, Match = None, Timestamp = 0\<rparr>],
                    cap = 2, closed = False\<rparr>)\<rparr>,
                submitted = None, reading = True\<rparr>"
proof -
  have a: "\<not> fst (Allow (climiter (hubst worldFive) alice) 0)" by (rule worldFive_alice)
  have b: "\<not> closed (send (hubst worldFive) alice)"
    by (simp add: worldFive_alice emptyChan_def)
  have c: "has_room (send (hubst worldFive) alice)"
    by (simp add: worldFive_alice emptyChan_def has_room_def)
  show ?thesis
    using rate_limited_frame_gets_one_error[OF a b, of hello] a b c reachable_worldFive
    by (simp add: worldFive_alice emptyChan_def)
qed

text \<open>
  Two refused frames later alice's queue of two is full, and at the next refused frame
  her read pump waits in the send: no event is enqueued and the pump does not go on.
\<close>

theorem rate_limited_frame_waits_at_full_queue_counterexample:
  "reachable worldSeven
   \<and> \<not> fst (Allow (climiter (hubst worldSeven) alice) 0)
   \<and> \<not> closed (send (hubst worldSeven) alice)
   \<and> readPump (hubst worldSeven) alice (Decoded hello) 0 =
       Blocked \<lparr>state = hubst worldSeven, submitted = None, reading = True\<rparr>"
  using readPump_refused[OF worldSeven_alice(1,2), of hello] worldSeven_alice reachable_worldSeven
  by simp













lemma access: "canAccessRoom alice ''m1''" "\<not> canAccessRoom carol ''m1''"
  by (simp_all add: canAccessRoom_def alice_def carol_def)




section \<open>Writes to a closed queue\<close>


lemma mu_cases: "mu h = Unlocked \<or> mu h = Writing"
  by (cases "mu h") simp_all

lemma handleRegister_locked: "mu h = Writing \<Longrightarrow> handleRegister h c now = Blocked h"
  by (simp add: handleRegister_def)

lemma handleRegister_norooms:
  "mu h = Unlocked \<Longrightarrow> crooms c = [] \<Longrightarrow>
   handleRegister h c now =
     Returns (h\<lparr>mu := Unlocked, clients := insert c (clients h),
                initialData := initialData h @ [c],
                ConnectedClients := ConnectedClients h + 1\<rparr>)"
  by (simp add: handleRegister_def Let_def)

lemma handleRegister_rooms_blocks:
  "mu h = Unlocked \<Longrightarrow> crooms c = (room, b) # rest \<Longrightarrow>
   handleRegister h c now =
     Blocked (h\<lparr>mu := Writing, clients := insert c (clients h),
                initialData := initialData h @ [c],
                rooms := (rooms h)(room \<mapsto> insert c (members h room))\<rparr>)"
  by (simp add: handleRegister_def Let_def members_def broadcastToRoom_def marshal_def joinMsg_def)

lemma handleRegister_effect:
  "\<not> panics (handleRegister h c now)
   \<and> send (state_of (handleRegister h c now)) = send h
   \<and> pendingUnregister (state_of (handleRegister h c now)) = pendingUnregister h
   \<and> (mu (state_of (handleRegister h c now)) = Unlocked \<longrightarrow>
        mu h = Unlocked \<and> crooms c = []
        \<and> rooms (state_of (handleRegister h c now)) = rooms h
        \<and> clients (state_of (handleRegister h c now)) = insert c (clients h))"
proof (cases "mu h = Writing")
  case True
  then show ?thesis by (simp add: handleRegister_locked)
next
  case False
  then have u: "mu h = Unlocked" using mu_cases by blast
  show ?thesis
  proof (cases "crooms c")
    case Nil
    then show ?thesis using u by (simp add: handleRegister_norooms)
  next
    case (Cons rb rest)
    obtain room b where "rb = (room, b)" by (cases rb)
    then show ?thesis using u Cons by (simp add: handleRegister_rooms_blocks)
  qed
qed

lemma handleUnregister_locked: "mu h = Writing \<Longrightarrow> handleUnregister h c now = Blocked h"
  by (simp add: handleUnregister_def)

lemma handleUnregister_absent:
  "mu h = Unlocked \<Longrightarrow> c \<notin> clients h \<Longrightarrow> handleUnregister h c now = Returns h"
  by (simp add: handleUnregister_def)

lemma handleUnregister_norooms:
  "mu h = Unlocked \<Longrightarrow> c \<in> clients h \<Longrightarrow> crooms c = [] \<Longrightarrow>
   handleUnregister h c now =
     Returns (h\<lparr>mu := Unlocked, clients := clients h - {c},
                send := (send h)(c := (send h c)\<lparr>closed := True\<rparr>),
                ConnectedClients := ConnectedClients h - 1\<rparr>)"
  by (simp add: handleUnregister_def Let_def)

lemma handleBroadcast_locked: "mu h = Writing \<Longrightarrow> handleBroadcast h m now = Blocked h"
  by (simp add: handleBroadcast_def checkRateLimit_def)

lemma handleBroadcast_idle:
  assumes "mu h = Unlocked" and "rooms h = Map.empty"
  shows "\<not> panics (handleBroadcast h m now)
   \<and> send (state_of (handleBroadcast h m now)) = send h
   \<and> pendingUnregister (state_of (handleBroadcast h m now)) = pendingUnregister h
   \<and> mu (state_of (handleBroadcast h m now)) = Unlocked
   \<and> rooms (state_of (handleBroadcast h m now)) = Map.empty
   \<and> clients (state_of (handleBroadcast h m now)) = clients h"
proof -
  obtain ok h1 where c: "checkRateLimit h (ChatRoom m) now = Returns (ok, h1)"
    and f1: "rooms h1 = rooms h" "send h1 = send h" "pendingUnregister h1 = pendingUnregister h"
      "mu h1 = mu h" "clients h1 = clients h"
    using assms(1) by (simp add: checkRateLimit_def Let_def)
  show ?thesis
  proof (cases ok)
    case False
    then show ?thesis using c f1 assms by (simp add: handleBroadcast_def)
  next
    case True
    define h2 where "h2 = (if Type m = MessageTypeChat then h1\<lparr>persisted := persisted h1 @ [m]\<rparr> else h1)"
    have f2: "rooms h2 = Map.empty" "send h2 = send h" "pendingUnregister h2 = pendingUnregister h"
      "mu h2 = Unlocked" "clients h2 = clients h"
      using f1 assms by (simp_all add: h2_def)
    have hb: "handleBroadcast h m now =
        (case broadcastToRoom h2 (ChatRoom m) m of
                 Returns h3 \<Rightarrow> Returns (h3\<lparr>MessagesSent := Suc (MessagesSent h3)\<rparr>)
               | Blocked h3 \<Rightarrow> Blocked h3
               | Panicked h3 \<Rightarrow> Panicked h3)"
      using c True by (simp add: handleBroadcast_def h2_def)
    have mem: "members h2 (ChatRoom m) = {}" using f2 by (simp add: members_def)
    have b: "broadcastToRoom h2 (ChatRoom m) m = Returns h2"
    proof (cases "marshal m")
      case None
      then show ?thesis by (simp add: broadcastToRoom_def)
    next
      case (Some p)
      have "h2\<lparr>send := send h2, pendingUnregister := pendingUnregister h2\<rparr> = h2" by simp
      then show ?thesis using Some f2 mem by (simp add: broadcastToRoom_def Let_def)
    qed
    show ?thesis using hb b f2 by simp
  qed
qed


lemma touches_only_refl: "touches_only c h h"
  by (simp add: touches_only_def)

lemma touches_only_trans:
  "touches_only c h h1 \<Longrightarrow> touches_only c h1 h2 \<Longrightarrow> touches_only c h h2"
  by (simp add: touches_only_def)

lemma sendBlocking_effect:
  "touches_only c h (state_of (sendBlocking h c p))
   \<and> (\<not> closed (send h c) \<longrightarrow> \<not> panics (sendBlocking h c p))"
  by (simp add: sendBlocking_def touches_only_def push_def)

lemma replyError_effect:
  "touches_only c h (state_of (replyError h c reason))
   \<and> (\<not> closed (send h c) \<longrightarrow> \<not> panics (replyError h c reason))"
  using sendBlocking_effect[of c h]
  by (cases "marshal (errorMsg reason)") (simp_all add: replyError_def touches_only_refl)

lemma lift_reply_state:
  "state (state_of (lift_reply r)) = state_of r" "panics (lift_reply r) = panics r"
  by (cases r; simp add: lift_reply_def)+

lemma readPump_effect:
  "mu (state (state_of (readPump h c fr now))) = mu h
   \<and> rooms (state (state_of (readPump h c fr now))) = rooms h
   \<and> clients (state (state_of (readPump h c fr now))) = clients h
   \<and> (\<forall>x. x \<noteq> c \<longrightarrow> send (state (state_of (readPump h c fr now))) x = send h x)
   \<and> closed (send (state (state_of (readPump h c fr now))) c) = closed (send h c)
   \<and> (\<forall>x. 0 < pendingUnregister (state (state_of (readPump h c fr now))) x \<longrightarrow>
          0 < pendingUnregister h x \<or> (x = c \<and> fr = ReadError))
   \<and> (\<not> closed (send h c) \<longrightarrow> \<not> panics (readPump h c fr now))"
proof (cases fr)
  case ReadError
  then show ?thesis by (simp add: readPump_def)
next
  case Malformed
  then show ?thesis by (simp add: readPump_def)
next
  case (Decoded wsMessage)
  define h1 where "h1 = h\<lparr>climiter := (climiter h)(c := snd (Allow (climiter h c) now))\<rparr>"
  have t1: "touches_only c h h1" by (simp add: h1_def touches_only_def)
  have c1: "closed (send h1 c) = closed (send h c)" by (simp add: h1_def)
  have reply: "touches_only c h (state_of (replyError h1 c reason))
     \<and> (\<not> closed (send h c) \<longrightarrow> \<not> panics (replyError h1 c reason))" for reason
    using replyError_effect[of c h1 reason] t1 c1 touches_only_trans by blast
  consider (refused) "\<not> fst (Allow (climiter h c) now)"
    | (denied) "fst (Allow (climiter h c) now)"
        "\<not> canAccessRoom c (ChatRoom wsMessage)"
    | (stuck) "fst (Allow (climiter h c) now)" "canAccessRoom c (ChatRoom wsMessage)"
        "mu h = Writing"
    | (sub) "fst (Allow (climiter h c) now)" "canAccessRoom c (ChatRoom wsMessage)"
        "mu h \<noteq> Writing"
    by blast
  then show ?thesis
  proof cases
    case refused
    then have "readPump h c fr now = lift_reply (replyError h1 c ''Rate limit exceeded'')"
      using Decoded by (simp add: readPump_def Let_def h1_def)
    then show ?thesis using reply[of "''Rate limit exceeded''"]
      by (simp add: lift_reply_state touches_only_def)
  next
    case denied
    then have "readPump h c fr now = lift_reply (replyError h1 c ''Room access denied'')"
      using Decoded by (simp add: readPump_def Let_def h1_def)
    then show ?thesis using reply[of "''Room access denied''"]
      by (simp add: lift_reply_state touches_only_def)
  next
    case stuck
    then have "readPump h c fr now = Blocked \<lparr>state = h1, submitted = None, reading = True\<rparr>"
      using Decoded by (simp add: readPump_def Let_def h1_def)
    then show ?thesis using t1 by (simp add: touches_only_def)
  next
    case sub
    then have "readPump h c fr now =
       Returns \<lparr>state = h1, submitted = Some (wsMessage\<lparr>User := Some (user c), Timestamp := now\<rparr>),
                reading = True\<rparr>"
      using Decoded by (simp add: readPump_def Let_def h1_def)
    then show ?thesis using t1 by (simp add: touches_only_def)
  qed
qed

lemma sendHistory_effect:
  "touches_only c h (snd (state_of (sendHistory h c room msgs)))
   \<and> (\<not> closed (send h c) \<longrightarrow> \<not> panics (sendHistory h c room msgs))"
proof (induction msgs arbitrary: h)
  case Nil
  show ?case by (simp add: touches_only_refl)
next
  case (Cons msg msgs)
  show ?case
  proof (cases "marshal (historyMsg room msg)")
    case None
    then show ?thesis using Cons.IH[of h] by simp
  next
    case (Some payload)
    show ?thesis
    proof (cases "closed (send h c)")
      case True
      then show ?thesis using Some by (simp add: touches_only_refl)
    next
      case False
      show ?thesis
      proof (cases "has_room (send h c)")
        case True
        define h1 where "h1 = h\<lparr>send := (send h)(c := push (send h c) payload)\<rparr>"
        have t: "touches_only c h h1" "\<not> closed (send h1 c)"
          using False by (simp_all add: h1_def touches_only_def push_def)
        have e: "sendHistory h c room (msg # msgs) = sendHistory h1 c room msgs"
          using Some False True by (simp add: h1_def)
        show ?thesis unfolding e using Cons.IH[of h1] t touches_only_trans by blast
      next
        case r: False
        then show ?thesis using Some False by (simp add: touches_only_refl)
      qed
    qed
  qed
qed

lemma sendMatch_effect:
  "touches_only c h (state_of (sendMatch h c room now))
   \<and> (\<not> closed (send h c) \<longrightarrow> \<not> panics (sendMatch h c room now))"
  using sendBlocking_effect[of c h]
  by (auto simp: sendMatch_def touches_only_refl split: option.splits)

lemma initialRooms_effect:
  "touches_only c h (state_of (initialRooms h c store now rs))
   \<and> (\<not> closed (send h c) \<longrightarrow> \<not> panics (initialRooms h c store now rs))"
proof (induction rs arbitrary: h)
  case Nil
  show ?case by (simp add: touches_only_refl)
next
  case (Cons room rs)
  show ?case
  proof (cases "store room")
    case None
    then show ?thesis using Cons.IH[of h] by simp
  next
    case (Some msgs)
    obtain b h1 where s: "state_of (sendHistory h c room msgs) = (b, h1)"
      by (cases "state_of (sendHistory h c room msgs)")
    have t1: "touches_only c h h1"
      and p1: "\<not> closed (send h c) \<longrightarrow> \<not> panics (sendHistory h c room msgs)"
      using sendHistory_effect[of c h room msgs] s by simp_all
    have c1: "closed (send h1 c) = closed (send h c)" using t1 by (simp add: touches_only_def)
    show ?thesis
    proof (cases "sendHistory h c room msgs")
      case (Panicked x)
      then show ?thesis using Some s t1 p1 by simp
    next
      case (Blocked x)
      then show ?thesis using Some s t1 by simp
    next
      case (Returns x)
      then have x: "x = (b, h1)" using s by simp
      show ?thesis
      proof (cases b)
        case False
        then show ?thesis using Some Returns x t1 by simp
      next
        case True
        have t2: "touches_only c h (state_of (sendMatch h1 c room now))"
          and p2: "\<not> closed (send h c) \<longrightarrow> \<not> panics (sendMatch h1 c room now)"
          using sendMatch_effect[of c h1 room now] t1 c1 touches_only_trans by blast+
        have e: "initialRooms h c store now (room # rs) =
            (case sendMatch h1 c room now of
                       Returns h2 \<Rightarrow> initialRooms h2 c store now rs
                     | Blocked h2 \<Rightarrow> Blocked h2
                     | Panicked h2 \<Rightarrow> Panicked h2)"
          using Some Returns x True by simp
        show ?thesis
        proof (cases "sendMatch h1 c room now")
          case r: (Returns h2)
          then have t: "touches_only c h h2" using t2 by simp
          then have "closed (send h2 c) = closed (send h c)" by (simp add: touches_only_def)
          then show ?thesis unfolding e using r Cons.IH[of h2] t touches_only_trans
            by (simp del: initialRooms.simps)
        next
          case r: (Blocked h2)
          then show ?thesis unfolding e using t2 by simp
        next
          case r: (Panicked h2)
          then show ?thesis unfolding e using t2 p2 by simp
        qed
      qed
    qed
  qed
qed

lemma sendInitialData_effect:
  "touches_only c h (state_of (sendInitialData h c store now))
   \<and> (\<not> closed (send h c) \<longrightarrow> \<not> panics (sendInitialData h c store now))
   \<and> (crooms c = [] \<longrightarrow> sendInitialData h c store now = Returns h)"
  using initialRooms_effect[of c h store now "map fst (crooms c)"]
  by (simp add: sendInitialData_def)


lemma map_outcome_state:
  "state_of (map_outcome f r) = f (state_of r)" "panics (map_outcome f r) = panics r"
  by (cases r; simp)+

lemma sound_start: "(\<And>c. \<not> closed (chans c)) \<Longrightarrow> sound \<lparr>hubst = NewHub chans lims, ended = {}\<rparr>"
  by (simp add: sound_def NewHub_def)

lemma safe_register:
  assumes "sound w"
  shows "safe_step w (Loop (Register c) now)"
proof -
  define h where "h = hubst w"
  define h' where "h' = state_of (handleRegister h c now)"
  have o: "outcome_of w (Loop (Register c) now) = handleRegister h c now"
    by (simp add: outcome_of_def turn_def Run_def h_def)
  have a: "after w (Loop (Register c) now) = \<lparr>hubst = h', ended = ended w\<rparr>"
    by (simp add: after_def o h'_def)
  have e: "\<not> panics (handleRegister h c now)" "send h' = send h"
    "pendingUnregister h' = pendingUnregister h"
    "mu h' = Unlocked \<longrightarrow> mu h = Unlocked \<and> crooms c = [] \<and> rooms h' = rooms h
        \<and> clients h' = insert c (clients h)"
    using handleRegister_effect[of h c now] by (simp_all add: h'_def)
  have "sound \<lparr>hubst = h', ended = ended w\<rparr>"
    using assms e unfolding sound_def h_def[symmetric] by auto
  then show ?thesis using e by (simp add: safe_step_def o a h_def[symmetric])
qed

lemma safe_unregister:
  assumes "sound w" and "enabled w (Loop (Unregister c) now)"
  shows "safe_step w (Loop (Unregister c) now)"
proof -
  define h where "h = hubst w"
  have en: "c \<in> ended w" using assms by (auto simp: enabled_def sound_def)
  have o: "outcome_of w (Loop (Unregister c) now) =
      (if mu h = Writing then Blocked h else handleUnregister (received h c) c now)"
    by (simp add: outcome_of_def turn_def h_def)
  show ?thesis
  proof (cases "mu h = Writing")
    case True
    then have "after w (Loop (Unregister c) now) = w"
      by (simp add: after_def o h_def)
    then show ?thesis using assms(1) True by (simp add: safe_step_def o)
  next
    case False
    then have u: "mu h = Unlocked" using mu_cases by blast
    define g where "g = received h c"
    have gf: "mu g = Unlocked" "clients g = clients h" "send g = send h" "rooms g = rooms h"
      "\<forall>x. 0 < pendingUnregister g x \<longrightarrow> 0 < pendingUnregister h x"
      using u by (simp_all add: g_def received_def)
    show ?thesis
    proof (cases "c \<in> clients h")
      case n: False
      then have r: "outcome_of w (Loop (Unregister c) now) = Returns g"
        using False gf handleUnregister_absent[of g c now] by (simp add: o g_def)
      then have a: "after w (Loop (Unregister c) now) = \<lparr>hubst = g, ended = ended w\<rparr>"
        by (simp add: after_def)
      have "sound \<lparr>hubst = g, ended = ended w\<rparr>"
        using assms(1) gf u unfolding sound_def h_def[symmetric] by auto
      then show ?thesis using gf by (simp add: safe_step_def r a h_def[symmetric])
    next
      case y: True
      then have nr: "crooms c = []" using assms(1) u by (simp add: sound_def h_def)
      define h' where "h' = g\<lparr>mu := Unlocked, clients := clients g - {c},
                send := (send g)(c := (send g c)\<lparr>closed := True\<rparr>),
                ConnectedClients := ConnectedClients g - 1\<rparr>"
      have r: "outcome_of w (Loop (Unregister c) now) = Returns h'"
        using False gf y nr handleUnregister_norooms[of g c now] by (simp add: o g_def h'_def)
      then have a: "after w (Loop (Unregister c) now) = \<lparr>hubst = h', ended = ended w\<rparr>"
        by (simp add: after_def)
      have hf: "mu h' = Unlocked" "rooms h' = rooms h" "clients h' = clients h - {c}"
        "pendingUnregister h' = pendingUnregister g"
        "\<forall>x. x \<noteq> c \<longrightarrow> send h' x = send h x"
        "send h' c = (send h c)\<lparr>closed := True\<rparr>"
        using gf by (simp_all add: h'_def)
      have "sound \<lparr>hubst = h', ended = ended w\<rparr>"
        using assms(1) gf hf en nr u unfolding sound_def h_def[symmetric]
        by (auto split: if_splits)
      moreover have "\<forall>x. closed (send h x) \<longrightarrow> send h' x = send h x"
        using hf by (metis chan.surjective chan.update_convs(3) old.unit.exhaust)
      ultimately show ?thesis by (simp add: safe_step_def r a h_def[symmetric])
    qed
  qed
qed


lemma safe_broadcast:
  assumes "sound w"
  shows "safe_step w (Loop (Broadcast m) now)"
proof -
  define h where "h = hubst w"
  have o: "outcome_of w (Loop (Broadcast m) now) = handleBroadcast h m now"
    by (simp add: outcome_of_def turn_def Run_def h_def)
  show ?thesis
  proof (cases "mu h = Writing")
    case True
    then have b: "handleBroadcast h m now = Blocked h" by (rule handleBroadcast_locked)
    then have "after w (Loop (Broadcast m) now) = w" by (simp add: after_def o h_def)
    then show ?thesis using assms by (simp add: safe_step_def o b)
  next
    case False
    then have u: "mu h = Unlocked" using mu_cases by blast
    then have r: "rooms h = Map.empty" using assms by (simp add: sound_def h_def)
    define h' where "h' = state_of (handleBroadcast h m now)"
    have e: "\<not> panics (handleBroadcast h m now)" "send h' = send h"
      "pendingUnregister h' = pendingUnregister h" "mu h' = Unlocked"
      "rooms h' = Map.empty" "clients h' = clients h"
      using handleBroadcast_idle[OF u r, of m now] by (simp_all add: h'_def)
    have a: "after w (Loop (Broadcast m) now) = \<lparr>hubst = h', ended = ended w\<rparr>"
      by (simp add: after_def o h'_def)
    have "sound \<lparr>hubst = h', ended = ended w\<rparr>"
      using assms e u unfolding sound_def h_def[symmetric] by auto
    then show ?thesis using e by (simp add: safe_step_def o a h_def[symmetric])
  qed
qed

lemma safe_frame:
  assumes "sound w" and "enabled w (Frame c fr now)"
  shows "safe_step w (Frame c fr now)"
proof -
  define h where "h = hubst w"
  define h' where "h' = state (state_of (readPump h c fr now))"
  define en where "en = (if fr = ReadError then insert c (ended w) else ended w)"
  have ne: "c \<notin> ended w" using assms(2) by (simp add: enabled_def)
  then have op: "\<not> closed (send h c)" using assms(1) by (auto simp: sound_def h_def)
  have o: "outcome_of w (Frame c fr now) = map_outcome state (readPump h c fr now)"
    by (simp add: outcome_of_def h_def)
  have a: "after w (Frame c fr now) = \<lparr>hubst = h', ended = en\<rparr>"
    by (simp add: after_def o map_outcome_state h'_def en_def)
  have e: "mu h' = mu h" "rooms h' = rooms h" "clients h' = clients h"
    "\<forall>x. x \<noteq> c \<longrightarrow> send h' x = send h x"
    "closed (send h' c) = closed (send h c)"
    "\<forall>x. 0 < pendingUnregister h' x \<longrightarrow> 0 < pendingUnregister h x \<or> (x = c \<and> fr = ReadError)"
    "\<not> panics (readPump h c fr now)"
    using readPump_effect[of h c fr now] op by (simp_all add: h'_def)
  have sub: "ended w \<subseteq> en" by (auto simp: en_def)
  have "sound \<lparr>hubst = h', ended = en\<rparr>"
    unfolding sound_def
  proof (intro conjI allI impI)
    assume "mu (hubst \<lparr>hubst = h', ended = en\<rparr>) = Unlocked"
    then have "mu h = Unlocked" using e by simp
    then show "rooms (hubst \<lparr>hubst = h', ended = en\<rparr>) = Map.empty"
      "\<forall>c\<in>clients (hubst \<lparr>hubst = h', ended = en\<rparr>). crooms c = []"
      using assms(1) e by (simp_all add: sound_def h_def)
  next
    fix x assume cl: "closed (send (hubst \<lparr>hubst = h', ended = en\<rparr>) x)"
    then have "x \<noteq> c" using e(5) op by auto
    then have "closed (send h x)" using cl e(4) by simp
    then show "x \<in> ended \<lparr>hubst = h', ended = en\<rparr>" "crooms x = []"
      using assms(1) sub by (auto simp: sound_def h_def)
  next
    fix x assume "0 < pendingUnregister (hubst \<lparr>hubst = h', ended = en\<rparr>) x"
    then have "0 < pendingUnregister h x \<or> (x = c \<and> fr = ReadError)" using e(6) by simp
    then show "x \<in> ended \<lparr>hubst = h', ended = en\<rparr>"
      using assms(1) sub by (auto simp: sound_def h_def en_def)
  qed
  moreover have "\<forall>x. closed (send h x) \<longrightarrow> send h' x = send h x"
    using e(4) op by auto
  ultimately show ?thesis
    using e(7) by (simp add: safe_step_def o a map_outcome_state h_def[symmetric])
qed

lemma sound_touched:
  assumes "sound w" and "touches_only c (hubst w) h'"
  shows "sound \<lparr>hubst = h', ended = ended w\<rparr>"
  unfolding sound_def
proof (intro conjI allI impI)
  assume "mu (hubst \<lparr>hubst = h', ended = ended w\<rparr>) = Unlocked"
  then have "mu (hubst w) = Unlocked" using assms(2) by (simp add: touches_only_def)
  then show "rooms (hubst \<lparr>hubst = h', ended = ended w\<rparr>) = Map.empty"
    "\<forall>c\<in>clients (hubst \<lparr>hubst = h', ended = ended w\<rparr>). crooms c = []"
    using assms by (simp_all add: sound_def touches_only_def)
next
  fix x assume cl: "closed (send (hubst \<lparr>hubst = h', ended = ended w\<rparr>) x)"
  have "closed (send h' x) = closed (send (hubst w) x)"
    using assms(2) by (cases "x = c") (simp_all add: touches_only_def)
  then have "closed (send (hubst w) x)" using cl by simp
  then show "x \<in> ended \<lparr>hubst = h', ended = ended w\<rparr>" "crooms x = []"
    using assms(1) by (auto simp: sound_def)
next
  fix x assume "0 < pendingUnregister (hubst \<lparr>hubst = h', ended = ended w\<rparr>) x"
  then have "0 < pendingUnregister (hubst w) x" using assms(2) by (simp add: touches_only_def)
  then show "x \<in> ended \<lparr>hubst = h', ended = ended w\<rparr>"
    using assms(1) by (auto simp: sound_def)
qed

lemma safe_initial:
  assumes "sound w"
  shows "safe_step w (InitialData c store now)"
proof -
  define h where "h = hubst w"
  define h' where "h' = state_of (sendInitialData h c store now)"
  have o: "outcome_of w (InitialData c store now) = sendInitialData h c store now"
    by (simp add: outcome_of_def h_def)
  have a: "after w (InitialData c store now) = \<lparr>hubst = h', ended = ended w\<rparr>"
    by (simp add: after_def o h'_def)
  have e: "touches_only c h h'"
    "\<not> closed (send h c) \<longrightarrow> \<not> panics (sendInitialData h c store now)"
    "crooms c = [] \<longrightarrow> sendInitialData h c store now = Returns h"
    using sendInitialData_effect[of c h store now] by (simp_all add: h'_def)
  have cl: "closed (send h c) \<longrightarrow> crooms c = []" using assms by (auto simp: sound_def h_def)
  have np: "\<not> panics (sendInitialData h c store now)"
    using e(2,3) cl by (cases "closed (send h c)") auto
  have same: "\<forall>x. closed (send h x) \<longrightarrow> send h' x = send h x"
  proof (intro allI impI)
    fix x assume c: "closed (send h x)"
    show "send h' x = send h x"
    proof (cases "x = c")
      case True
      then have "sendInitialData h c store now = Returns h" using c cl e(3) by simp
      then show ?thesis by (simp add: h'_def)
    next
      case False
      then show ?thesis using e(1) by (simp add: touches_only_def)
    qed
  qed
  have "sound \<lparr>hubst = h', ended = ended w\<rparr>"
    using sound_touched[OF assms, of c h'] e(1) by (simp add: h_def)
  then show ?thesis using np same by (simp add: safe_step_def o a h_def[symmetric])
qed

lemma safe_tick:
  assumes "sound w"
  shows "safe_step w (Tick fetched now)"
proof -
  define h where "h = hubst w"
  define h' where "h' = fst (state_of (fetchMatchUpdates h fetched now))"
  have o: "outcome_of w (Tick fetched now) = map_outcome fst (fetchMatchUpdates h fetched now)"
    by (simp add: outcome_of_def h_def)
  have a: "after w (Tick fetched now) = \<lparr>hubst = h', ended = ended w\<rparr>"
    by (simp add: after_def o map_outcome_state h'_def)
  have f: "h' = h\<lparr>matches := matches h', matchMu := matchMu h'\<rparr>"
    "\<not> panics (fetchMatchUpdates h fetched now)"
    using fetchMatchUpdates_frame[of h fetched now] by (simp_all add: h'_def)
  have g: "mu h' = mu h" "rooms h' = rooms h" "clients h' = clients h" "send h' = send h"
    "pendingUnregister h' = pendingUnregister h"
  proof -
    define k where "k = h\<lparr>matches := matches h', matchMu := matchMu h'\<rparr>"
    have "h' = k" using f(1) by (simp add: k_def)
    moreover have "mu k = mu h" "rooms k = rooms h" "clients k = clients h" "send k = send h"
      "pendingUnregister k = pendingUnregister h" by (simp_all add: k_def)
    ultimately show "mu h' = mu h" "rooms h' = rooms h" "clients h' = clients h"
      "send h' = send h" "pendingUnregister h' = pendingUnregister h" by simp_all
  qed
  have "sound \<lparr>hubst = h', ended = ended w\<rparr>"
    using assms g unfolding sound_def h_def[symmetric] by simp
  then show ?thesis using f(2) g
    by (simp add: safe_step_def o a map_outcome_state h_def[symmetric])
qed

lemma safe_drain:
  assumes "sound w"
  shows "safe_step w (Drain c)"
proof -
  define h where "h = hubst w"
  define h' where "h' = h\<lparr>send := (send h)(c := (send h c)\<lparr>buf := []\<rparr>)\<rparr>"
  have o: "outcome_of w (Drain c) = Returns h'"
    by (simp add: outcome_of_def h_def h'_def)
  have a: "after w (Drain c) = \<lparr>hubst = h', ended = ended w\<rparr>"
    by (simp add: after_def o)
  have "touches_only c h h'" by (simp add: touches_only_def h'_def)
  then have "sound \<lparr>hubst = h', ended = ended w\<rparr>"
    using sound_touched[OF assms, of c h'] by (simp add: h_def)
  moreover have "\<forall>x. x \<noteq> c \<longrightarrow> send h' x = send h x" by (simp add: h'_def)
  ultimately show ?thesis by (auto simp: safe_step_def o a h_def[symmetric])
qed

lemma sound_step:
  assumes "sound w" and "enabled w a"
  shows "safe_step w a"
proof (cases a)
  case (Loop ev now)
  then show ?thesis
    using assms safe_register safe_unregister safe_broadcast by (cases ev) simp_all
next
  case (Frame c fr now)
  then show ?thesis using assms safe_frame by simp
next
  case (InitialData c store now)
  then show ?thesis using assms safe_initial by simp
next
  case (Tick fetched now)
  then show ?thesis using assms safe_tick by simp
next
  case (Drain c)
  then show ?thesis using assms safe_drain by simp
qed

lemma reachable_sound: "reachable w \<Longrightarrow> sound w"
proof (induction rule: reachable.induct)
  case (start chans lims)
  then show ?case by (simp add: sound_start)
next
  case (step w a)
  then show ?case using sound_step[of w a] by (simp add: safe_step_def)
qed

text \<open>
  C8. In every state the program reaches, no step that can be taken there panics, and
  every queue that is closed stays exactly as it is, whoever takes the step (the hub's
  loop with its fan-out, a read pump with its error replies, an initial-data task, the
  poller), unless the step is the write pump of that queue taking what is left in it.
  In this model a send on a closed queue is a panic, so nothing is ever enqueued on a
  queue that \<open>handleUnregister\<close> has closed.
\<close>

theorem closed_queue_is_never_written:
  assumes "reachable w" and "enabled w a"
  shows "\<not> panics (outcome_of w a)
     \<and> (\<forall>c. closed (send (hubst w) c) \<longrightarrow> a \<noteq> Drain c \<longrightarrow>
            send (hubst (after w a)) c = send (hubst w) c)"
  using sound_step[OF reachable_sound[OF assms(1)] assms(2)] by (simp add: safe_step_def)


lemma const_upd: "(\<lambda>_. v)(x := v) = (\<lambda>_. v)"
  by auto

lemma worldCarol_eq:
  "worldCarol = \<lparr>hubst = hub0\<lparr>clients := {}, initialData := [carol],
                     send := (\<lambda>_. emptyChan)(carol := emptyChan\<lparr>closed := True\<rparr>)\<rparr>,
                 ended = {carol}\<rparr>"
  by (simp add: worldCarol_def after_Loop after_Frame turn_def Run_def hubst_world0)
     (simp add: handleRegister_def handleUnregister_def readPump_def received_def carol_def
        hub0_def NewHub_def Let_def const_upd)

lemma allowed_worldCarol:
  "allowed world0 [Loop (Register carol) 0, Frame carol ReadError 1, Loop (Unregister carol) 2]"
  by (simp add: enabled_def after_Loop after_Frame turn_def Run_def hubst_world0)
     (simp add: handleRegister_def readPump_def carol_def hub0_def NewHub_def Let_def)

lemma reachable_worldCarol: "reachable worldCarol"
  unfolding worldCarol_def
  by (rule reachable_afterAll[OF reachable_world0 allowed_worldCarol])

text \<open>
  Carol is registered, her read pump meets a read error and the loop unregisters her,
  which closes her queue. The initial-data task of carol and a broadcast handled by the
  loop can both still run: neither panics and her closed queue stays empty.
\<close>

theorem closed_queue_is_never_written_witness:
  "reachable worldCarol
   \<and> enabled worldCarol (InitialData carol (\<lambda>_. Some [(''hi'', Some ''bob'', 0)]) 3)
   \<and> closed (send (hubst worldCarol) carol)
   \<and> \<not> panics (outcome_of worldCarol (InitialData carol (\<lambda>_. Some [(''hi'', Some ''bob'', 0)]) 3))
   \<and> send (hubst (after worldCarol (InitialData carol (\<lambda>_. Some [(''hi'', Some ''bob'', 0)]) 3)))
        carol = \<lparr>buf = [], cap = 2, closed = True\<rparr>
   \<and> enabled worldCarol (Loop (Broadcast helloAlice) 3)
   \<and> \<not> panics (outcome_of worldCarol (Loop (Broadcast helloAlice) 3))
   \<and> send (hubst (after worldCarol (Loop (Broadcast helloAlice) 3))) carol
       = \<lparr>buf = [], cap = 2, closed = True\<rparr>"
proof -
  have e: "enabled worldCarol (InitialData carol (\<lambda>_. Some [(''hi'', Some ''bob'', 0)]) 3)"
    "enabled worldCarol (Loop (Broadcast helloAlice) 3)"
    by (simp_all add: enabled_def)
  have c: "closed (send (hubst worldCarol) carol)"
    "send (hubst worldCarol) carol = \<lparr>buf = [], cap = 2, closed = True\<rparr>"
    by (simp_all add: worldCarol_eq emptyChan_def)
  show ?thesis
    using closed_queue_is_never_written[OF reachable_worldCarol e(1)]
      closed_queue_is_never_written[OF reachable_worldCarol e(2)]
      reachable_worldCarol e c
    by simp
qed

end
